theory Spec2Isabelle
  imports Complex_Main "HOL-Library.AList" "HOL-Library.Sublist"
begin

section \<open>JavaScript values used by the crawler\<close>

text \<open>
  A JavaScript number that came from \<open>parseInt\<close> or from a calendar year is either
  \<open>NaN\<close> or an integer. Integers are kept exact (the rounding that doubles apply
  beyond \<open>2^53\<close> is not part of the model).
\<close>

datatype js_number = NaN | Num int

definition digit_char :: "nat \<Rightarrow> char" where
  "digit_char d = ''0123456789'' ! d"

definition is_digit :: "char \<Rightarrow> bool" where
  "is_digit c = (c \<in> set ''0123456789'')"

definition digit_val :: "char \<Rightarrow> nat" where
  "digit_val c = (case map_of (zip ''0123456789'' [0 ..< 10]) c of Some d \<Rightarrow> d | None \<Rightarrow> 0)"

text \<open>The decimal digits of a natural number, most significant first.\<close>

fun digits :: "nat \<Rightarrow> string" where
  "digits n = (if n < 10 then [digit_char n] else digits (n div 10) @ [digit_char (n mod 10)])"

declare digits.simps [simp del]

text \<open>\<open>Number.prototype.toString\<close> on an integer, and on a \<open>js_number\<close>.\<close>

definition int_toString :: "int \<Rightarrow> string" where
  "int_toString i = (if i < 0 then CHR ''-'' # digits (nat (- i)) else digits (nat i))"

fun toString :: "js_number \<Rightarrow> string" where
  "toString NaN = ''NaN''"
| "toString (Num i) = int_toString i"

text \<open>
  \<open>parseInt(s, 10)\<close>: leading white space is skipped, one sign is read, then the longest
  run of decimal digits; no digit at all gives \<open>NaN\<close>. With radix 10 no \<open>0x\<close> prefix is
  stripped. \<open>parseInt\<close> never throws on a string. White space is the ASCII part of
  \<open>StrWhiteSpaceChar\<close> (TAB, LF, VT, FF, CR, SP).
\<close>

definition is_space :: "char \<Rightarrow> bool" where
  "is_space c = (of_char c \<in> {9, 10, 11, 12, 13, 32 :: nat})"

definition decimal_value :: "string \<Rightarrow> nat" where
  "decimal_value ds = foldl (\<lambda>acc c. acc * 10 + digit_val c) 0 ds"

definition int_prefix :: "string \<Rightarrow> string" where
  "int_prefix s =
     (let t = dropWhile is_space s;
          u = (case t of [] \<Rightarrow> [] | c # r \<Rightarrow> if c = CHR ''+'' \<or> c = CHR ''-'' then r else t)
      in takeWhile is_digit u)"

definition parseInt :: "string \<Rightarrow> js_number" where
  "parseInt s =
     (let t = dropWhile is_space s;
          sign = (case t of [] \<Rightarrow> 1 | c # r \<Rightarrow> if c = CHR ''-'' then - 1 else (1 :: int));
          z = int_prefix s
      in if z = [] then NaN else Num (sign * int (decimal_value z)))"

text \<open>
  \<open>parseInt(s)\<close> with no radix: the same, but digits after a prefix \<open>0x\<close> or \<open>0X\<close>
  are read in base 16.
\<close>

definition is_hex_digit :: "char \<Rightarrow> bool" where
  "is_hex_digit c = (c \<in> set ''0123456789abcdefABCDEF'')"

definition hex_digit_val :: "char \<Rightarrow> nat" where
  "hex_digit_val c =
     (case map_of (zip ''0123456789abcdefABCDEF'' ([0 ..< 16] @ [10 ..< 16])) c of
        Some d \<Rightarrow> d | None \<Rightarrow> 0)"

definition hex_value :: "string \<Rightarrow> nat" where
  "hex_value ds = foldl (\<lambda>acc c. acc * 16 + hex_digit_val c) 0 ds"

definition parseInt_no_radix :: "string \<Rightarrow> js_number" where
  "parseInt_no_radix s =
     (let t = dropWhile is_space s;
          sign = (case t of [] \<Rightarrow> 1 | c # r \<Rightarrow> if c = CHR ''-'' then - 1 else (1 :: int));
          u = (case t of [] \<Rightarrow> [] | c # r \<Rightarrow> if c = CHR ''+'' \<or> c = CHR ''-'' then r else t)
      in if take 2 u = ''0x'' \<or> take 2 u = ''0X'' then
           (let z = takeWhile is_hex_digit (drop 2 u)
            in if z = [] then NaN else Num (sign * int (hex_value z)))
         else
           (let z = takeWhile is_digit u
            in if z = [] then NaN else Num (sign * int (decimal_value z))))"

text \<open>\<open>String.prototype.toLowerCase\<close> and \<open>toUpperCase\<close>, on ASCII letters.\<close>

definition lower_char :: "char \<Rightarrow> char" where
  "lower_char c =
     (case map_of (zip ''ABCDEFGHIJKLMNOPQRSTUVWXYZ'' ''abcdefghijklmnopqrstuvwxyz'') c of
        Some d \<Rightarrow> d | None \<Rightarrow> c)"

definition upper_char :: "char \<Rightarrow> char" where
  "upper_char c =
     (case map_of (zip ''abcdefghijklmnopqrstuvwxyz'' ''ABCDEFGHIJKLMNOPQRSTUVWXYZ'') c of
        Some d \<Rightarrow> d | None \<Rightarrow> c)"

definition toLowerCase :: "string \<Rightarrow> string" where
  "toLowerCase s = map lower_char s"

definition toUpperCase :: "string \<Rightarrow> string" where
  "toUpperCase s = map upper_char s"

section \<open>utils.ts\<close>

subsection \<open>getIntConfig\<close>

text \<open>
  \<open>process.env\<close> is a map from names to strings; a missing name reads as
  \<open>undefined\<close>, which \<open>value == null\<close> accepts. The result \<open>number | null\<close> is an
  option, \<open>None\<close> being \<open>null\<close>. The \<open>try\<close> block is a case on what \<open>parseInt\<close>
  does: it returns (\<open>Inr\<close>), so the \<open>catch\<close> branch has no input that reaches it.
\<close>

type_synonym env = "string \<rightharpoonup> string"

datatype js_error = Error string

definition try_parseInt :: "string \<Rightarrow> js_error + js_number" where
  "try_parseInt v = Inr (parseInt v)"

definition getIntConfig :: "env \<Rightarrow> string \<Rightarrow> js_number option" where
  "getIntConfig penv key =
     (case penv key of
        None \<Rightarrow> None
      | Some v \<Rightarrow> (case try_parseInt v of Inr n \<Rightarrow> Some n | Inl err \<Rightarrow> None))"

text \<open>The nullish coalescing operator \<open>a ?? b\<close>.\<close>

definition nullish :: "'a option \<Rightarrow> 'a \<Rightarrow> 'a" where
  "nullish a b = (case a of None \<Rightarrow> b | Some v \<Rightarrow> v)"

definition CONCURRENCY :: "env \<Rightarrow> js_number" where
  "CONCURRENCY penv = nullish (getIntConfig penv ''CONCURRENCY'') (Num 2)"

definition REQUEST_DELAY_MS :: "env \<Rightarrow> js_number" where
  "REQUEST_DELAY_MS penv = nullish (getIntConfig penv ''REQUEST_DELAY_MS'') (Num 500)"

definition COURSES_PER_SUBJECT :: "env \<Rightarrow> js_number option" where
  "COURSES_PER_SUBJECT penv = getIntConfig penv ''COURSES_PER_SUBJECT''"

subsection \<open>generateTermsToScrape\<close>

text \<open>
  The clock is an input: \<open>getFullYear\<close> and \<open>getMonth\<close> (0 to 11) of \<open>new Date()\<close>.
  The count \<open>numTerms\<close> is an integer. An emitted term has the year as a string; its
  name is what \<open>termOrder[i]\<close> reads, \<open>None\<close> standing for \<open>undefined\<close> outside the
  array. The field \<open>term\<close> of the source is \<open>term_name\<close> here.
\<close>

record date =
  getFullYear :: int
  getMonth :: int

record term_rec =
  year :: string
  term_name :: "string option"

definition termOrder :: "string list" where
  "termOrder = [''spring'', ''summer'', ''fall'', ''winter'']"

definition js_index :: "'a list \<Rightarrow> int \<Rightarrow> 'a option" where
  "js_index xs i = (if 0 \<le> i \<and> i < int (length xs) then Some (xs ! nat i) else None)"

fun indexOf_from :: "'a list \<Rightarrow> 'a \<Rightarrow> int \<Rightarrow> int" where
  "indexOf_from [] x k = - 1"
| "indexOf_from (y # ys) x k = (if y = x then k else indexOf_from ys x (k + 1))"

definition indexOf :: "'a list \<Rightarrow> 'a \<Rightarrow> int" where
  "indexOf xs x = indexOf_from xs x 0"

definition currentTerm :: "int \<Rightarrow> string" where
  "currentTerm currentMonth =
     (if currentMonth \<le> 1 then ''winter''
      else if currentMonth \<le> 5 then ''spring''
      else if currentMonth \<le> 8 then ''summer''
      else if currentMonth \<le> 12 then ''fall''
      else ''spring'')"

text \<open>
  The tail of the loop body, "move backwards in the cycle": the index is decremented,
  and the year with it when the index wraps or the term just emitted was spring.
\<close>

definition move_back :: "string option \<Rightarrow> int \<times> int \<Rightarrow> int \<times> int" where
  "move_back trm st =
     (case st of (currentTermIndex, yr) \<Rightarrow>
        let currentTermIndex = currentTermIndex - 1 in
        if currentTermIndex < 0 then (int (length termOrder) - 1, yr - 1)
        else if trm = Some ''spring'' then (currentTermIndex, yr - 1)
        else (currentTermIndex, yr))"

text \<open>The \<open>for\<close> loop, from counter \<open>i\<close>.\<close>

function terms_loop :: "int \<Rightarrow> int \<Rightarrow> int \<times> int \<Rightarrow> term_rec list \<Rightarrow> term_rec list" where
  "terms_loop i numTerms st terms =
     (if i < numTerms then
        (case st of (currentTermIndex, yr) \<Rightarrow>
           let trm = js_index termOrder currentTermIndex;
               termYear = (if trm = Some ''winter'' then yr else yr);
               terms = terms @ [\<lparr>year = int_toString termYear, term_name = trm\<rparr>]
           in terms_loop (i + 1) numTerms (move_back trm (currentTermIndex, yr)) terms)
      else terms)"
  by pat_completeness auto
termination
  by (relation "measure (\<lambda>(i, numTerms, st, terms). nat (numTerms - i))") auto

declare terms_loop.simps [simp del]

definition generateTermsToScrape :: "date \<Rightarrow> int \<Rightarrow> term_rec list" where
  "generateTermsToScrape now numTerms =
     (let currentYear = getFullYear now;
          currentMonth = getMonth now + 1;
          cur = currentTerm currentMonth;
          currentTermIndex = indexOf termOrder cur;
          yr = currentYear;
          yr = (if cur = ''winter'' then currentYear else yr)
      in terms_loop 0 numTerms (currentTermIndex, yr) [])"

text \<open>
  Two views of the loop for the proofs: the record pushed at a loop state, and one pass
  of the body on the pair of index and year; \<open>walk_state now k\<close> is the state after
  \<open>k\<close> passes.
\<close>

definition emit :: "int \<times> int \<Rightarrow> term_rec" where
  "emit st = \<lparr>year = int_toString (snd st), term_name = js_index termOrder (fst st)\<rparr>"

definition walk_step :: "int \<times> int \<Rightarrow> int \<times> int" where
  "walk_step st = move_back (js_index termOrder (fst st)) st"

definition start_state :: "date \<Rightarrow> int \<times> int" where
  "start_state now = (indexOf termOrder (currentTerm (getMonth now + 1)), getFullYear now)"

definition walk_state :: "date \<Rightarrow> nat \<Rightarrow> int \<times> int" where
  "walk_state now k = (walk_step ^^ k) (start_state now)"

subsection \<open>getTermCode\<close>

text \<open>
  \<open>termCodes\<close> is an object literal, so \<open>termCodes[k]\<close> finds the four own properties
  and, for any other key, what \<open>Object.prototype\<close> has under that name: a function or
  an object, which is truthy. A property value is a string or such an object, kept here
  by the text that a template literal prints for it (for a built-in function, the text
  Node prints). A name that neither has is \<open>undefined\<close>, here \<open>None\<close>.
\<close>

datatype js_value = JsString string | JsObject string

definition object_prototype :: "(string \<times> js_value) list" where
  "object_prototype =
     [(''constructor'', JsObject ''function Object() { [native code] }''),
      (''__proto__'', JsObject ''[object Object]''),
      (''hasOwnProperty'', JsObject ''function hasOwnProperty() { [native code] }''),
      (''isPrototypeOf'', JsObject ''function isPrototypeOf() { [native code] }''),
      (''propertyIsEnumerable'', JsObject ''function propertyIsEnumerable() { [native code] }''),
      (''toLocaleString'', JsObject ''function toLocaleString() { [native code] }''),
      (''toString'', JsObject ''function toString() { [native code] }''),
      (''valueOf'', JsObject ''function valueOf() { [native code] }''),
      (''__defineGetter__'', JsObject ''function __defineGetter__() { [native code] }''),
      (''__defineSetter__'', JsObject ''function __defineSetter__() { [native code] }''),
      (''__lookupGetter__'', JsObject ''function __lookupGetter__() { [native code] }''),
      (''__lookupSetter__'', JsObject ''function __lookupSetter__() { [native code] }'')]"

definition termCodes :: "(string \<times> js_value) list" where
  "termCodes =
     [(''spring'', JsString ''02''),
      (''summer'', JsString ''05''),
      (''fall'', JsString ''08''),
      (''winter'', JsString ''12'')]"

definition get_property :: "(string \<times> js_value) list \<Rightarrow> string \<Rightarrow> js_value option" where
  "get_property obj k =
     (case map_of obj k of Some v \<Rightarrow> Some v | None \<Rightarrow> map_of object_prototype k)"

fun falsy :: "js_value \<Rightarrow> bool" where
  "falsy (JsString s) = (s = [])"
| "falsy (JsObject s) = False"

fun template_text :: "js_value \<Rightarrow> string" where
  "template_text (JsString s) = s"
| "template_text (JsObject s) = s"

definition getTermCode :: "string \<Rightarrow> string \<Rightarrow> js_error + string" where
  "getTermCode yr trm =
     (case get_property termCodes (toLowerCase trm) of
        None \<Rightarrow> Inl (Error (''Invalid term: '' @ trm))
      | Some code \<Rightarrow>
          if falsy code then Inl (Error (''Invalid term: '' @ trm))
          else Inr (yr @ template_text code))"

subsection \<open>getTermName\<close>

definition getTermName :: "string \<Rightarrow> string \<Rightarrow> string" where
  "getTermName yr trm =
     (let termName = toUpperCase (take 1 trm) @ toLowerCase (drop 1 trm) in
      if toLowerCase trm = ''winter'' then
        (let prevYear = (case parseInt_no_radix yr of NaN \<Rightarrow> NaN | Num y \<Rightarrow> Num (y - 1))
         in ''Winter '' @ toString prevYear @ ''-'' @ yr)
      else termName @ '' '' @ yr)"

text \<open>
  Where a pair stands on the calendar, as the program itself reads a pair. The walk's
  comments say that the winter term belongs to the later year (Winter 2025-2026 is
  \<open>2026/winter\<close>), and \<open>getTermName\<close> renders \<open>(Y, winter)\<close> as Winter \<open>Y-1\<close>-\<open>Y\<close>: the winter
  of \<open>Y\<close> lies between fall of \<open>Y-1\<close> and spring of \<open>Y\<close>. The year is read as
  \<open>getTermName\<close> reads it. One step forward in the cycle spring, summer, fall, winter,
  spring of the next year is one position later. \<open>later_than a b\<close>: both pairs have a
  position, and \<open>a\<close> is the later term.
\<close>

definition calendar_position :: "term_rec \<Rightarrow> int option" where
  "calendar_position t =
     (case parseInt_no_radix (year t) of
        NaN \<Rightarrow> None
      | Num y \<Rightarrow>
          (case term_name t of
             None \<Rightarrow> None
           | Some nm \<Rightarrow>
               if nm = ''winter'' then Some (4 * y)
               else if nm = ''spring'' then Some (4 * y + 1)
               else if nm = ''summer'' then Some (4 * y + 2)
               else if nm = ''fall'' then Some (4 * y + 3)
               else None))"

definition later_than :: "term_rec \<Rightarrow> term_rec \<Rightarrow> bool" where
  "later_than a b =
     (case calendar_position a of
        None \<Rightarrow> False
      | Some x \<Rightarrow> (case calendar_position b of None \<Rightarrow> False | Some y \<Rightarrow> y < x))"

section \<open>index.ts\<close>

subsection \<open>sleep\<close>

text \<open>
  The delay that \<open>sleep\<close> hands to \<open>setTimeout\<close>. \<open>Math.random()\<close> is an input.
  Numbers are real numbers here: the rounding of doubles is not part of the model.
  \<open>None\<close> for \<open>jitterPercent\<close> is the omitted argument, which defaults to 0.3.
\<close>

definition sleep_actualDelay :: "real \<Rightarrow> real option \<Rightarrow> real \<Rightarrow> real" where
  "sleep_actualDelay ms jitterPercent random =
     (let jitterPercent = (case jitterPercent of None \<Rightarrow> 3 / 10 | Some j \<Rightarrow> j);
          jitter = ms * jitterPercent * (random * 2 - 1);
          actualDelay = max 100 (ms + jitter)
      in actualDelay)"

subsection \<open>scrapeWithDelay and the module's variables\<close>

text \<open>
  \<open>CourseInfo\<close> comes from the scraper module; the orchestrator reads its subject and
  number. \<open>scrapeCourse\<close> either resolves with a payload (\<open>None\<close> for a falsy one) or
  rejects with an error, of which the code reads \<open>error.response?.status\<close> and the message.
\<close>

record courseInfo =
  subject :: string
  number :: string

datatype 'd fetch_outcome = Resolved "'d option" | Rejected "nat option" string

record 'd scrape_result =
  course :: courseInfo
  data :: "'d option"
  success :: bool

text \<open>
  The module-level variables \<open>totalRequests\<close>, \<open>rateLimitCount\<close>, \<open>forbidden403Count\<close> and
  \<open>abortRequested\<close>, together with what the outside sees of \<open>scrapeWithDelay\<close>: the lines
  it prints and the calls of \<open>sleep\<close> and \<open>scrapeCourse\<close> it makes, in order. The progress
  output of \<open>main\<close> is not kept.
\<close>

datatype console_line =
    Forbidden403 courseInfo
  | RateLimited courseInfo
  | ExcessiveRateLimiting nat
  | FailedToScrape courseInfo string

datatype call = SleepCall js_number | ScrapeCourseCall string string string string

record globals =
  totalRequests :: nat
  rateLimitCount :: nat
  forbidden403Count :: nat
  abortRequested :: bool
  console :: "console_line list"
  calls :: "call list"

definition initial_globals :: globals where
  "initial_globals =
     \<lparr>totalRequests = 0, rateLimitCount = 0, forbidden403Count = 0, abortRequested = False,
      console = [], calls = []\<rparr>"

definition skip_result :: "courseInfo \<Rightarrow> 'd scrape_result" where
  "skip_result c = \<lparr>course = c, data = None, success = False\<rparr>"

text \<open>
  \<open>scrapeWithDelay\<close> runs in three pieces, cut at its two \<open>await\<close>s; between two pieces
  other tasks may run. The first piece reads the flag and either returns the skip result
  or starts \<open>sleep\<close>. The second, when the delay is over, counts the request and calls
  \<open>scrapeCourse\<close>. The third handles what \<open>scrapeCourse\<close> gave. The constant
  \<open>MAX_403_ERRORS\<close> is declared and never read: the first 403 sets the flag.
\<close>

definition scrapeWithDelay_enter ::
  "globals \<Rightarrow> courseInfo \<Rightarrow> js_number \<Rightarrow> globals \<times> 'd scrape_result option" where
  "scrapeWithDelay_enter g c delayMs =
     (if abortRequested g then (g, Some (skip_result c))
      else (g\<lparr>calls := calls g @ [SleepCall delayMs]\<rparr>, None))"

definition scrapeWithDelay_wake :: "globals \<Rightarrow> string \<Rightarrow> string \<Rightarrow> courseInfo \<Rightarrow> globals" where
  "scrapeWithDelay_wake g yr trm c =
     g\<lparr>totalRequests := totalRequests g + 1,
       calls := calls g @ [ScrapeCourseCall yr trm (subject c) (number c)]\<rparr>"

definition scrapeWithDelay_settle ::
  "globals \<Rightarrow> courseInfo \<Rightarrow> 'd fetch_outcome \<Rightarrow> globals \<times> 'd scrape_result" where
  "scrapeWithDelay_settle g c outcome =
     (case outcome of
        Resolved scraped \<Rightarrow> (g, \<lparr>course = c, data = scraped, success = True\<rparr>)
      | Rejected status message \<Rightarrow>
          if status = Some 403 then
            (g\<lparr>forbidden403Count := forbidden403Count g + 1,
               console := console g @ [Forbidden403 c],
               abortRequested := True\<rparr>,
             skip_result c)
          else
            let g1 = (if status = Some 429 then
                        (let g' = g\<lparr>rateLimitCount := rateLimitCount g + 1,
                                    console := console g @ [RateLimited c]\<rparr>
                         in if rateLimitCount g' > 5
                            then g'\<lparr>console := console g' @ [ExcessiveRateLimiting (rateLimitCount g')]\<rparr>
                            else g')
                      else g);
                g2 = (if \<not> abortRequested g1
                      then g1\<lparr>console := console g1 @ [FailedToScrape c message]\<rparr>
                      else g1)
            in (g2, skip_result c))"

text \<open>The function handed to \<open>asyncPool\<close>.\<close>

definition pool_callback ::
  "globals \<Rightarrow> courseInfo \<Rightarrow> js_number \<Rightarrow> globals \<times> 'd scrape_result option" where
  "pool_callback g c delayMs =
     (if abortRequested g then (g, Some (skip_result c))
      else scrapeWithDelay_enter g c delayMs)"

subsection \<open>The result loop\<close>

text \<open>
  The variables of the loop over the results. \<open>coursesMap\<close> is an object: an association
  list in insertion order, a key written twice keeping its place. \<open>consume\<close> is the body
  of the loop up to the progress output; the test \<open>result.success && result.data\<close> holds
  when \<open>success\<close> is set and the data is not falsy. The converter of the writer module
  is a parameter.
\<close>

record 'c aggregate =
  coursesMap :: "(string \<times> 'c) list"
  successCount :: nat
  failureCount :: nat
  completed :: nat

definition courseKey :: "courseInfo \<Rightarrow> string" where
  "courseKey c = subject c @ '' '' @ number c"

definition consume :: "('d \<Rightarrow> 'c) \<Rightarrow> 'd scrape_result \<Rightarrow> 'c aggregate \<Rightarrow> 'c aggregate" where
  "consume convertCourse r a =
     (let a = a\<lparr>completed := completed a + 1\<rparr> in
      case (if success r then data r else None) of
        Some d \<Rightarrow>
          a\<lparr>coursesMap := AList.update (courseKey (course r)) (convertCourse d) (coursesMap a),
            successCount := successCount a + 1\<rparr>
      | None \<Rightarrow> a\<lparr>failureCount := failureCount a + 1\<rparr>)"

subsection \<open>One term's pool run\<close>

text \<open>
  The pool library is not part of these sources, so its scheduling is left open: a run is
  a list of events, and every interleaving is a run. \<open>Admit\<close> is the pool calling the
  callback on the next course of the list, \<open>Wake i\<close> the end of task \<open>i\<close>'s delay,
  \<open>Respond i outcome\<close> the end of its fetch, \<open>Yield i\<close> the loop receiving its result.
  An event that cannot happen in the current state changes nothing. \<open>consumed\<close> records
  which results the loop has received, in order. Once the loop has left, by \<open>break\<close> or
  because every result was received, the run is over: after \<open>break\<close> the code reaches
  \<open>process.exit\<close> before any timer or response is handled.
\<close>

datatype 'd task = Queued | Sleeping | Fetching | Settled "'d scrape_result" | Yielded

datatype loop_status = Running | Broke | Exhausted

datatype 'd event = Admit | Wake nat | Respond nat "'d fetch_outcome" | Yield nat

record ('d, 'c) pool =
  glob :: globals
  tasks :: "'d task list"
  admitted :: nat
  agg :: "'c aggregate"
  consumed :: "(nat \<times> 'd scrape_result) list"
  loop :: loop_status

record ('d, 'c) pool_args =
  pool_year :: string
  pool_term :: string
  coursesToScrape :: "courseInfo list"
  delay :: js_number
  convertCourse :: "'d \<Rightarrow> 'c"

definition step :: "('d, 'c) pool_args \<Rightarrow> 'd event \<Rightarrow> ('d, 'c) pool \<Rightarrow> ('d, 'c) pool" where
  "step cfg ev p =
     (if loop p \<noteq> Running then p
      else case ev of
        Admit \<Rightarrow>
          (let i = admitted p in
           if i < length (coursesToScrape cfg) then
             (case pool_callback (glob p) (coursesToScrape cfg ! i) (delay cfg) of
                (g, r) \<Rightarrow>
                  p\<lparr>glob := g,
                    tasks := (tasks p)[i := (case r of None \<Rightarrow> Sleeping | Some res \<Rightarrow> Settled res)],
                    admitted := i + 1\<rparr>)
           else p)
      | Wake i \<Rightarrow>
          if i < length (coursesToScrape cfg) \<and> i < length (tasks p) \<and> tasks p ! i = Sleeping then
            p\<lparr>glob := scrapeWithDelay_wake (glob p) (pool_year cfg) (pool_term cfg)
                        (coursesToScrape cfg ! i),
              tasks := (tasks p)[i := Fetching]\<rparr>
          else p
      | Respond i outcome \<Rightarrow>
          if i < length (coursesToScrape cfg) \<and> i < length (tasks p) \<and> tasks p ! i = Fetching then
            (case scrapeWithDelay_settle (glob p) (coursesToScrape cfg ! i) outcome of
               (g, r) \<Rightarrow> p\<lparr>glob := g, tasks := (tasks p)[i := Settled r]\<rparr>)
          else p
      | Yield i \<Rightarrow>
          if i < length (tasks p) then
            (case tasks p ! i of
               Settled r \<Rightarrow>
                 (let ts = (tasks p)[i := Yielded] in
                  p\<lparr>agg := consume (convertCourse cfg) r (agg p),
                    tasks := ts,
                    consumed := consumed p @ [(i, r)],
                    loop := (if abortRequested (glob p) then Broke
                             else if list_all (\<lambda>t. t = Yielded) ts then Exhausted
                             else Running)\<rparr>)
             | _ \<Rightarrow> p)
          else p)"

definition init_pool :: "globals \<Rightarrow> courseInfo list \<Rightarrow> ('d, 'c) pool" where
  "init_pool g cs =
     \<lparr>glob = g, tasks = replicate (length cs) Queued, admitted = 0,
      agg = \<lparr>coursesMap = [], successCount = 0, failureCount = 0, completed = 0\<rparr>,
      consumed = [], loop = Running\<rparr>"

definition run :: "('d, 'c) pool_args \<Rightarrow> 'd event list \<Rightarrow> ('d, 'c) pool \<Rightarrow> ('d, 'c) pool" where
  "run cfg evs p = fold (step cfg) evs p"

text \<open>
  Nothing is awaited between the end of a task and the loop receiving its result but
  promise reactions, so a pool that hands the result over through them delivers it in the
  turn of the event loop in which the task ends, before any timer or response is handled.
  A schedule of turns is such a run: \<open>Completed i outcome\<close> is the response and the
  delivery together.
\<close>

datatype 'd turn = AdmitNext | Woken nat | Completed nat "'d fetch_outcome"

fun events_of_turn :: "'d turn \<Rightarrow> 'd event list" where
  "events_of_turn AdmitNext = [Admit]"
| "events_of_turn (Woken i) = [Wake i]"
| "events_of_turn (Completed i outcome) = [Respond i outcome, Yield i]"

definition turn_events :: "'d turn list \<Rightarrow> 'd event list" where
  "turn_events ts = concat (map events_of_turn ts)"

subsection \<open>main\<close>

text \<open>
  \<open>courses.slice(0, n)\<close>, and the discovery loop over the subjects. The delay between two
  subjects has no effect on any state and is left out.
\<close>

definition js_slice0 :: "'a list \<Rightarrow> js_number \<Rightarrow> 'a list" where
  "js_slice0 xs n =
     (case n of
        NaN \<Rightarrow> []
      | Num k \<Rightarrow> if k < 0 then take (nat (int (length xs) + k)) xs else take (nat k) xs)"

fun discover ::
  "js_number option \<Rightarrow> (string \<Rightarrow> js_error + courseInfo list) \<Rightarrow> string list
     \<Rightarrow> courseInfo list \<Rightarrow> js_error + courseInfo list" where
  "discover perSubject scrapeCourseList [] allCourses = Inr allCourses"
| "discover perSubject scrapeCourseList (s # subjects) allCourses =
     (case scrapeCourseList s of
        Inl err \<Rightarrow> Inl err
      | Inr courses \<Rightarrow>
          (case perSubject of
             Some n \<Rightarrow>
               if length courses > 0
               then discover perSubject scrapeCourseList subjects (allCourses @ js_slice0 courses n)
               else discover perSubject scrapeCourseList subjects (allCourses @ courses)
           | None \<Rightarrow> discover perSubject scrapeCourseList subjects (allCourses @ courses)))"

text \<open>
  What a run leaves behind: the term files and the index that the writer is asked to
  write, and the exit of the process. The writer is taken not to throw, and a dataset is
  kept as the course map it is generated from. The outside world of one term is a script:
  what \<open>scrapeSubjects\<close> and \<open>scrapeCourseList\<close> give, and the schedule of the pool run.
  \<open>Pending\<close> is a run whose schedule ends while the loop still waits for a result.
  \<open>pool_starts\<close> records the module's variables at the start of each pool run.
\<close>

datatype 'c effect =
    WriteTermData string "(string \<times> 'c) list"
  | WriteIndex "(string \<times> string) list"
  | Exit nat

datatype status = Continue | Exited nat | Pending

record 'd term_script =
  scrapeSubjects_result :: "js_error + string list"
  scrapeCourseList_result :: "string \<Rightarrow> js_error + courseInfo list"
  schedule :: "'d event list"

record 'c main_state =
  globs :: globals
  allTermData :: "(string \<times> string \<times> (string \<times> 'c) list) list"
  effects :: "'c effect list"
  pool_starts :: "globals list"

definition initial_main_state :: "'c main_state" where
  "initial_main_state =
     \<lparr>globs = initial_globals, allTermData = [], effects = [], pool_starts = []\<rparr>"

text \<open>
  The body of the loop over the terms, from the abort check after the result loop on
  (\<open>finish_term\<close>) and as a whole (\<open>main_term_body\<close>); an error thrown inside the \<open>try\<close>
  block is caught, and the loop goes on with the next term. \<open>main\<close> takes the list
  \<open>termsToScrape\<close> as it is after configuration or discovery, each term with its script.
  Returning from \<open>main\<close> is \<open>Continue\<close>.
\<close>

definition finish_term ::
  "string \<Rightarrow> string \<Rightarrow> ('d, 'c) pool \<Rightarrow> 'c main_state \<Rightarrow> status \<times> 'c main_state" where
  "finish_term termCode termName p ms =
     (if abortRequested (glob p) then
        (let ms = (if successCount (agg p) > 0 then
                     ms\<lparr>effects := effects ms @ [WriteTermData termCode (coursesMap (agg p))],
                        allTermData := allTermData ms @ [(termCode, termName, coursesMap (agg p))]\<rparr>
                   else ms)
         in (Exited 1, ms\<lparr>effects := effects ms @ [Exit 1]\<rparr>))
      else
        (Continue,
         ms\<lparr>effects := effects ms @ [WriteTermData termCode (coursesMap (agg p))],
            allTermData := allTermData ms @ [(termCode, termName, coursesMap (agg p))]\<rparr>))"

definition main_term_body ::
  "env \<Rightarrow> ('d \<Rightarrow> 'c) \<Rightarrow> string \<times> string \<Rightarrow> 'd term_script \<Rightarrow> 'c main_state
     \<Rightarrow> status \<times> 'c main_state" where
  "main_term_body penv conv yt script ms =
     (case yt of (yr, trm) \<Rightarrow>
      case scrapeSubjects_result script of
        Inl err \<Rightarrow> (Continue, ms)
      | Inr subjects \<Rightarrow>
          if length subjects = 0 then (Continue, ms)
          else
            (case discover (COURSES_PER_SUBJECT penv) (scrapeCourseList_result script) subjects [] of
               Inl err \<Rightarrow> (Continue, ms)
             | Inr allCourses \<Rightarrow>
                 if length allCourses = 0 then (Continue, ms)
                 else
                   (case getTermCode yr trm of
                      Inl err \<Rightarrow> (Continue, ms)
                    | Inr termCode \<Rightarrow>
                        let g = (globs ms)\<lparr>abortRequested := False, forbidden403Count := 0\<rparr>;
                            cfg = \<lparr>pool_year = yr, pool_term = trm, coursesToScrape = allCourses,
                                   delay = REQUEST_DELAY_MS penv, convertCourse = conv\<rparr>;
                            p = run cfg (schedule script) (init_pool g allCourses);
                            ms = ms\<lparr>globs := glob p, pool_starts := pool_starts ms @ [g]\<rparr>
                        in if loop p = Running then (Pending, ms)
                           else finish_term termCode (getTermName yr trm) p ms)))"

fun main_loop ::
  "env \<Rightarrow> ('d \<Rightarrow> 'c) \<Rightarrow> ((string \<times> string) \<times> 'd term_script) list \<Rightarrow> 'c main_state
     \<Rightarrow> status \<times> 'c main_state" where
  "main_loop penv conv [] ms = (Continue, ms)"
| "main_loop penv conv ((yt, script) # rest) ms =
     (case main_term_body penv conv yt script ms of
        (Continue, ms') \<Rightarrow> main_loop penv conv rest ms'
      | (Exited n, ms') \<Rightarrow> (Exited n, ms')
      | (Pending, ms') \<Rightarrow> (Pending, ms'))"

definition main ::
  "env \<Rightarrow> ('d \<Rightarrow> 'c) \<Rightarrow> ((string \<times> string) \<times> 'd term_script) list \<Rightarrow> status \<times> 'c main_state" where
  "main penv conv termsToScrape =
     (if length termsToScrape = 0 then (Continue, initial_main_state)
      else
        (case main_loop penv conv termsToScrape initial_main_state of
           (Continue, ms) \<Rightarrow>
             (Continue,
              if length (allTermData ms) > 0
              then ms\<lparr>effects := effects ms @ [WriteIndex (map (\<lambda>t. (fst t, fst (snd t))) (allTermData ms))]\<rparr>
              else ms)
         | (Exited n, ms) \<Rightarrow> (Exited n, ms)
         | (Pending, ms) \<Rightarrow> (Pending, ms)))"

section \<open>Notions used in the statements\<close>

text \<open>
  Counting calls and sleeping tasks; a task that was skipped or never started; a result
  that the loop counts as a success.
\<close>

fun is_SleepCall :: "call \<Rightarrow> bool" where
  "is_SleepCall (SleepCall d) = True"
| "is_SleepCall c = False"

fun is_ScrapeCourseCall :: "call \<Rightarrow> bool" where
  "is_ScrapeCourseCall (ScrapeCourseCall y t s n) = True"
| "is_ScrapeCourseCall c = False"

definition sleep_calls :: "globals \<Rightarrow> nat" where
  "sleep_calls g = length (filter is_SleepCall (calls g))"

definition fetch_calls :: "globals \<Rightarrow> nat" where
  "fetch_calls g = length (filter is_ScrapeCourseCall (calls g))"

definition sleeping :: "'d task list \<Rightarrow> nat" where
  "sleeping ts = sum_list (map (\<lambda>t. if t = Sleeping then 1 else 0) ts)"

definition skipped :: "('d, 'c) pool_args \<Rightarrow> nat \<Rightarrow> 'd task \<Rightarrow> bool" where
  "skipped cfg i t =
     (t = Queued \<or> t = Settled (skip_result (coursesToScrape cfg ! i)) \<or> t = Yielded)"

definition ok :: "'d scrape_result \<Rightarrow> bool" where
  "ok r = (success r \<and> data r \<noteq> None)"

text \<open>
  The drain of claim C1: every unit of work that was admitted has been received by the
  result loop. The fresh session of claim C4. The number of index writes of claim C3.
\<close>

definition drained :: "('d, 'c) pool \<Rightarrow> bool" where
  "drained p = list_all (\<lambda>t. t = Yielded) (take (admitted p) (tasks p))"

definition session_fresh :: "globals \<Rightarrow> bool" where
  "session_fresh g =
     (totalRequests g = 0 \<and> rateLimitCount g = 0 \<and> forbidden403Count g = 0 \<and> \<not> abortRequested g)"



text \<open>Invariants of a pool run and of the loop over the terms.\<close>

definition agg_inv :: "('d, 'c) pool \<Rightarrow> bool" where
  "agg_inv p =
     (completed (agg p) = length (consumed p)
      \<and> successCount (agg p) = length (filter ok (map snd (consumed p)))
      \<and> failureCount (agg p) = length (filter (\<lambda>r. \<not> ok r) (map snd (consumed p)))
      \<and> set (map fst (coursesMap (agg p)))
          = set (map (\<lambda>r. courseKey (course r)) (filter ok (map snd (consumed p))))
      \<and> distinct (map fst (coursesMap (agg p))))"

definition task_inv :: "('d, 'c) pool_args \<Rightarrow> ('d, 'c) pool \<Rightarrow> bool" where
  "task_inv cfg p =
     (length (tasks p) = length (coursesToScrape cfg)
      \<and> (\<forall>i. admitted p \<le> i \<and> i < length (tasks p) \<longrightarrow> tasks p ! i = Queued)
      \<and> (\<forall>i r. i < length (tasks p) \<and> tasks p ! i = Settled r \<longrightarrow> course r = coursesToScrape cfg ! i)
      \<and> distinct (map fst (consumed p))
      \<and> (\<forall>i r. (i, r) \<in> set (consumed p) \<longrightarrow>
            i < length (tasks p) \<and> tasks p ! i = Yielded \<and> course r = coursesToScrape cfg ! i))"

definition written :: "'c main_state \<Rightarrow> 'c effect list" where
  "written ms = map (\<lambda>t. WriteTermData (fst t) (snd (snd t))) (allTermData ms)"

definition index_entries :: "'c main_state \<Rightarrow> (string \<times> string) list" where
  "index_entries ms = map (\<lambda>t. (fst t, fst (snd t))) (allTermData ms)"

definition reset_session :: "globals \<Rightarrow> globals" where
  "reset_session g = g\<lparr>abortRequested := False, forbidden403Count := 0\<rparr>"

definition tail_of :: "status \<Rightarrow> 'c effect list" where
  "tail_of st = (case st of Exited n \<Rightarrow> [Exit n] | _ \<Rightarrow> [])"

definition main_inv :: "status \<Rightarrow> 'c main_state \<Rightarrow> bool" where
  "main_inv st ms =
     (effects ms = written ms @ tail_of st
      \<and> (st = Continue \<or> st = Pending \<or> st = Exited 1)
      \<and> list_all (\<lambda>g. \<not> abortRequested g \<and> forbidden403Count g = 0) (pool_starts ms))"

section \<open>Example runs\<close>

definition cs101 :: courseInfo where "cs101 = \<lparr>subject = ''CS'', number = ''101''\<rparr>"

definition cs225 :: courseInfo where "cs225 = \<lparr>subject = ''CS'', number = ''225''\<rparr>"

definition cs374 :: courseInfo where "cs374 = \<lparr>subject = ''CS'', number = ''374''\<rparr>"

definition three_courses :: "(nat, nat) pool_args" where
  "three_courses =
     \<lparr>pool_year = ''2025'', pool_term = ''fall'', coursesToScrape = [cs101, cs225, cs374],
      delay = Num 500, convertCourse = (\<lambda>d. d)\<rparr>"

definition blocked_schedule :: "nat event list" where
  "blocked_schedule =
     [Admit, Admit, Wake 0, Wake 1, Respond 0 (Resolved (Some 3)), Yield 0,
      Admit, Wake 2, Respond 1 (Rejected (Some 403) ''Forbidden''), Yield 1]"

definition blocked_early :: "(nat, nat) pool" where
  "blocked_early =
     run three_courses [Admit, Admit, Wake 0, Respond 0 (Rejected (Some 403) ''Forbidden'')]
       (init_pool initial_globals [cs101, cs225, cs374])"

definition blocked_first_turns :: "nat turn list" where
  "blocked_first_turns =
     [AdmitNext, AdmitNext, Woken 0, Completed 0 (Rejected (Some 403) ''Forbidden'')]"


definition limited_script :: "nat term_script" where
  "limited_script =
     \<lparr>scrapeSubjects_result = Inr [''CS''],
      scrapeCourseList_result = (\<lambda>s. Inr [cs101]),
      schedule = [Admit, Wake 0, Respond 0 (Rejected (Some 429) ''Too Many Requests''), Yield 0]\<rparr>"


definition limited_run :: "status \<times> nat main_state" where
  "limited_run =
     main Map.empty (\<lambda>d. d)
       [((''2025'', ''fall''), limited_script), ((''2025'', ''summer''), limited_script)]"

definition after_fall :: "nat main_state" where
  "after_fall =
     \<lparr>globs = \<lparr>totalRequests = 1, rateLimitCount = 1, forbidden403Count = 0,
               abortRequested = False,
               console = [RateLimited cs101, FailedToScrape cs101 ''Too Many Requests''],
               calls = [SleepCall (Num 500), ScrapeCourseCall ''2025'' ''fall'' ''CS'' ''101'']\<rparr>,
      allTermData = [(''202508'', ''Fall 2025'', [])],
      effects = [WriteTermData ''202508'' []],
      pool_starts = [initial_globals]\<rparr>"

section \<open>Properties of utils.ts\<close>

subsection \<open>Numbers and strings\<close>

lemma digit_char_is_digit: "d < 10 \<Longrightarrow> is_digit (digit_char d)"
proof -
  assume "d < 10"
  then have "d \<in> {0,1,2,3,4,5,6,7,8,9}" by auto
  then show ?thesis
    by (auto simp: is_digit_def digit_char_def)
qed

lemma digit_val_digit_char: "d < 10 \<Longrightarrow> digit_val (digit_char d) = d"
proof -
  assume "d < 10"
  then have "d \<in> {0,1,2,3,4,5,6,7,8,9}" by auto
  then show ?thesis
    by (auto simp: digit_val_def digit_char_def upt_rec)
qed

lemma digits_nonempty: "digits n \<noteq> []"
  by (subst digits.simps) simp

lemma digits_all_digit: "c \<in> set (digits n) \<Longrightarrow> is_digit c"
proof (induction n arbitrary: c rule: digits.induct)
  case (1 n)
  show ?case
  proof (cases "n < 10")
    case True
    with "1.prems" show ?thesis
      by (subst (asm) digits.simps) (simp add: digit_char_is_digit)
  next
    case False
    with "1.prems" have "c \<in> set (digits (n div 10)) \<or> c = digit_char (n mod 10)"
      by (subst (asm) digits.simps) auto
    then show ?thesis
      using "1.IH" False digit_char_is_digit [of "n mod 10"] by auto
  qed
qed

lemma decimal_value_snoc: "decimal_value (ds @ [c]) = decimal_value ds * 10 + digit_val c"
  by (simp add: decimal_value_def)

lemma decimal_value_digits: "decimal_value (digits n) = n"
proof (induction n rule: digits.induct)
  case (1 n)
  show ?case
  proof (cases "n < 10")
    case True
    then show ?thesis
      by (subst digits.simps) (simp add: decimal_value_def digit_val_digit_char)
  next
    case False
    then have "decimal_value (digits n) = decimal_value (digits (n div 10)) * 10 + digit_val (digit_char (n mod 10))"
      by (subst digits.simps) (simp add: decimal_value_snoc)
    with False "1.IH" show ?thesis
      by (simp add: digit_val_digit_char)
  qed
qed

lemma is_digit_not_space: "is_digit c \<Longrightarrow> \<not> is_space c"
  by (auto simp: is_digit_def is_space_def)

lemma is_digit_not_sign: "is_digit c \<Longrightarrow> c \<noteq> CHR ''+'' \<and> c \<noteq> CHR ''-''"
  by (auto simp: is_digit_def)

lemma takeWhile_digits: "takeWhile is_digit (digits n) = digits n"
  by (simp add: digits_all_digit)

lemma int_prefix_digits: "int_prefix (digits n) = digits n"
proof -
  obtain c r where cr: "digits n = c # r"
    using digits_nonempty [of n] by (cases "digits n") auto
  then have "is_digit c" using digits_all_digit [of c n] by simp
  then show ?thesis
    using cr takeWhile_digits [of n] is_digit_not_space [of c] is_digit_not_sign [of c]
    by (simp add: int_prefix_def)
qed

lemma int_prefix_minus_digits: "int_prefix (CHR ''-'' # digits n) = digits n"
  using takeWhile_digits [of n] by (simp add: int_prefix_def is_space_def)

lemma parseInt_int_toString: "parseInt (int_toString i) = Num i"
proof (cases "i < 0")
  case True
  then show ?thesis
    using int_prefix_minus_digits [of "nat (- i)"] digits_nonempty [of "nat (- i)"]
    by (simp add: parseInt_def int_toString_def decimal_value_digits is_space_def)
next
  case False
  obtain c r where cr: "digits (nat i) = c # r"
    using digits_nonempty [of "nat i"] by (cases "digits (nat i)") auto
  then have "is_digit c" using digits_all_digit [of c "nat i"] by simp
  then have "\<not> is_space c" "c \<noteq> CHR ''-''"
    using is_digit_not_space is_digit_not_sign by auto
  then show ?thesis
    using False cr int_prefix_digits [of "nat i"] digits_nonempty [of "nat i"]
      decimal_value_digits [of "nat i"]
    by (simp add: parseInt_def int_toString_def)
qed

subsection \<open>The term walk\<close>

lemma terms_loop_eq:
  "terms_loop i n st acc = acc @ map (\<lambda>k. emit ((walk_step ^^ k) st)) [0 ..< nat (n - i)]"
proof (induction "nat (n - i)" arbitrary: i st acc)
  case 0
  then have "\<not> i < n" by simp
  then show ?case using 0 by (subst terms_loop.simps) simp
next
  case (Suc m)
  then have lt: "i < n" and m: "m = nat (n - (i + 1))" by auto
  obtain ix y where st: "st = (ix, y)" by (cases st)
  have "terms_loop i n st acc = terms_loop (i + 1) n (walk_step st) (acc @ [emit st])"
    using lt st by (subst terms_loop.simps) (simp add: Let_def emit_def walk_step_def)
  also have "\<dots> = (acc @ [emit st]) @ map (\<lambda>k. emit ((walk_step ^^ k) (walk_step st))) [0 ..< m]"
    using Suc.hyps(1) [OF m] m by simp
  also have "\<dots> = acc @ map (\<lambda>k. emit ((walk_step ^^ k) st)) [0 ..< Suc m]"
    by (simp add: map_upt_Suc funpow_swap1 del: upt_Suc)
  finally show ?case using Suc.hyps(2) by simp
qed

lemma walk_step_in_range:
  assumes "0 \<le> ix" "ix < 4"
  shows "0 \<le> fst (walk_step (ix, y)) \<and> fst (walk_step (ix, y)) < 4
       \<and> 4 * snd (walk_step (ix, y)) + fst (walk_step (ix, y)) = 4 * y + ix - 1"
proof -
  from assms have "ix \<in> {0, 1, 2, 3}" by auto
  then show ?thesis
    by (auto simp: walk_step_def move_back_def termOrder_def js_index_def)
qed

lemma walk_inv:
  assumes "0 \<le> ix" "ix < 4"
  shows "0 \<le> fst ((walk_step ^^ k) (ix, y)) \<and> fst ((walk_step ^^ k) (ix, y)) < 4
       \<and> 4 * snd ((walk_step ^^ k) (ix, y)) + fst ((walk_step ^^ k) (ix, y)) = 4 * y + ix - int k"
proof (induction k)
  case 0
  then show ?case using assms by simp
next
  case (Suc k)
  obtain a b where ab: "(walk_step ^^ k) (ix, y) = (a, b)" by (cases "(walk_step ^^ k) (ix, y)")
  with Suc have "0 \<le> a" "a < 4" "4 * b + a = 4 * y + ix - int k" by auto
  then show ?case using walk_step_in_range [of a b] ab by simp
qed

lemma start_index_range:
  "0 \<le> indexOf termOrder (currentTerm m) \<and> indexOf termOrder (currentTerm m) < 4"
  by (simp add: indexOf_def termOrder_def currentTerm_def)

lemma js_index_termOrder:
  assumes "0 \<le> ix" "ix < 4"
  shows "js_index termOrder ix = Some (termOrder ! nat ix)"
  using assms by (simp add: js_index_def termOrder_def)

lemma indexOf_termOrder:
  assumes "0 \<le> ix" "ix < 4"
  shows "indexOf termOrder (termOrder ! nat ix) = ix"
proof -
  from assms have "ix \<in> {0, 1, 2, 3}" by auto
  then show ?thesis by (auto simp: indexOf_def termOrder_def)
qed

lemma generateTermsToScrape_eq:
  "generateTermsToScrape now n = map (\<lambda>k. emit (walk_state now k)) [0 ..< nat n]"
  by (simp add: generateTermsToScrape_def Let_def terms_loop_eq walk_state_def start_state_def)

lemma walk_state_inv:
  "0 \<le> fst (walk_state now k) \<and> fst (walk_state now k) < 4
   \<and> 4 * snd (walk_state now k) + fst (walk_state now k)
       = 4 * snd (start_state now) + fst (start_state now) - int k"
  using walk_inv [of "fst (start_state now)" k "snd (start_state now)"]
    start_index_range [of "getMonth now + 1"]
  by (simp add: walk_state_def start_state_def)

text \<open>
  Claim C6. The pair emitted at position \<open>k\<close> carries the year and the index that the
  walk holds at that moment. The next state is the loop's own step from there: when the
  term just emitted is spring, which is exactly when the index wraps below 0, the year
  goes down by one and the next term is winter; in every other case the year stays.
\<close>

theorem walk_year_decrement:
  assumes "int k < n"
  shows "walk_state now 0 = (indexOf termOrder (currentTerm (getMonth now + 1)), getFullYear now)
       \<and> generateTermsToScrape now n ! k =
           \<lparr>year = int_toString (snd (walk_state now k)),
            term_name = js_index termOrder (fst (walk_state now k))\<rparr>
       \<and> walk_state now (Suc k) =
           move_back (js_index termOrder (fst (walk_state now k))) (walk_state now k)
       \<and> 0 \<le> fst (walk_state now k) \<and> fst (walk_state now k) < 4
       \<and> (js_index termOrder (fst (walk_state now k)) = Some ''spring'' \<longrightarrow>
            walk_state now (Suc k) = (3, snd (walk_state now k) - 1)
          \<and> js_index termOrder (fst (walk_state now (Suc k))) = Some ''winter'')
       \<and> (fst (walk_state now k) - 1 < 0 \<longrightarrow>
            walk_state now (Suc k) = (3, snd (walk_state now k) - 1))
       \<and> (js_index termOrder (fst (walk_state now k)) \<noteq> Some ''spring'' \<longrightarrow>
            walk_state now (Suc k) = (fst (walk_state now k) - 1, snd (walk_state now k)))"
proof -
  obtain ix y where w: "walk_state now k = (ix, y)" by (cases "walk_state now k")
  then have r: "0 \<le> ix" "ix < 4" using walk_state_inv [of now k] by auto
  then have ix: "ix \<in> {0, 1, 2, 3}" by auto
  have s: "walk_state now (Suc k) = move_back (js_index termOrder ix) (ix, y)"
    using w by (simp add: walk_state_def walk_step_def)
  have k: "k < nat n" using assms by auto
  have e: "generateTermsToScrape now n ! k = emit (ix, y)"
    using k w by (simp add: generateTermsToScrape_eq)
  have z: "walk_state now 0 = (indexOf termOrder (currentTerm (getMonth now + 1)), getFullYear now)"
    by (simp add: walk_state_def start_state_def)
  from ix have m: "(js_index termOrder ix = Some ''spring'' \<longrightarrow>
            move_back (js_index termOrder ix) (ix, y) = (3, y - 1))
       \<and> (ix - 1 < 0 \<longrightarrow> move_back (js_index termOrder ix) (ix, y) = (3, y - 1))
       \<and> (js_index termOrder ix \<noteq> Some ''spring'' \<longrightarrow>
            move_back (js_index termOrder ix) (ix, y) = (ix - 1, y))"
    by (auto simp: move_back_def js_index_def termOrder_def)
  have w3: "js_index termOrder 3 = Some ''winter''"
    by (simp add: js_index_def termOrder_def)
  show ?thesis
    using z e s r m w3 w by (simp add: emit_def)
qed

theorem walk_year_decrement_witness:
  "int 0 < 3 \<and> int 1 < 3
   \<and> generateTermsToScrape \<lparr>getFullYear = 2026, getMonth = 2\<rparr> 3 ! 0 =
       \<lparr>year = ''2026'', term_name = Some ''spring''\<rparr>
   \<and> walk_state \<lparr>getFullYear = 2026, getMonth = 2\<rparr> (Suc 0) = (3, 2025)
   \<and> generateTermsToScrape \<lparr>getFullYear = 2026, getMonth = 2\<rparr> 3 ! 1 =
       \<lparr>year = ''2025'', term_name = Some ''winter''\<rparr>
   \<and> walk_state \<lparr>getFullYear = 2026, getMonth = 2\<rparr> (Suc 1) = (2, 2025)"
proof -
  let ?now = "\<lparr>getFullYear = 2026, getMonth = 2\<rparr>"
  have a: "int_toString 2026 = ''2026''" "int_toString 2025 = ''2025''" by code_simp+
  have b: "indexOf termOrder (currentTerm 3) = 0" by code_simp
  have c: "js_index termOrder 0 = Some ''spring''" "js_index termOrder 3 = Some ''winter''"
    by code_simp+
  have d: "move_back (Some ''spring'') (0, 2026) = (3, 2025)" by code_simp
  have s0: "generateTermsToScrape ?now 3 ! 0 = \<lparr>year = ''2026'', term_name = Some ''spring''\<rparr>
      \<and> walk_state ?now (Suc 0) = (3, 2025)"
    using walk_year_decrement [of 0 3 ?now] by (simp add: a b c d)
  then have w1: "walk_state ?now (Suc 0) = (3, 2025)" by simp
  have d2: "move_back (Some ''winter'') (3, 2025) = (2, 2025)" by code_simp
  have s1: "generateTermsToScrape ?now 3 ! 1 = \<lparr>year = ''2025'', term_name = Some ''winter''\<rparr>
      \<and> walk_state ?now (Suc 1) = (2, 2025)"
    using walk_year_decrement [of 1 3 ?now] by (simp add: a c w1 d2)
  show ?thesis using s0 s1 by simp
qed

subsection \<open>The walk against the calendar\<close>

text \<open>What \<open>parseInt\<close> without a radix reads back from a printed integer.\<close>

lemma take2_digits_not_hex:
  "take 2 (digits n) \<noteq> ''0x'' \<and> take 2 (digits n) \<noteq> ''0X''"
proof -
  have "\<not> is_digit (CHR ''x'')" "\<not> is_digit (CHR ''X'')" by code_simp+
  then have "CHR ''x'' \<notin> set (digits n)" "CHR ''X'' \<notin> set (digits n)"
    using digits_all_digit by blast+
  then have "CHR ''x'' \<notin> set (take 2 (digits n))" "CHR ''X'' \<notin> set (take 2 (digits n))"
    using in_set_takeD by fastforce+
  then show ?thesis by auto
qed

lemma parseInt_no_radix_digits: "parseInt_no_radix (digits m) = Num (int m)"
proof -
  obtain c r where cr: "digits m = c # r"
    using digits_nonempty [of m] by (cases "digits m") auto
  then have "is_digit c" using digits_all_digit [of c m] by simp
  then have c: "\<not> is_space c" "c \<noteq> CHR ''-''" "c \<noteq> CHR ''+''"
    using is_digit_not_space is_digit_not_sign by auto
  have h: "take 2 (digits m) \<noteq> ''0x''" "take 2 (digits m) \<noteq> ''0X''"
    using take2_digits_not_hex [of m] by simp_all
  have dw: "dropWhile is_space (digits m) = digits m" using cr c by simp
  have sg: "(case digits m of [] \<Rightarrow> 1 | c # r \<Rightarrow> if c = CHR ''-'' then - 1 else (1 :: int)) = 1"
    using cr c by simp
  have u: "(case digits m of [] \<Rightarrow> []
            | c # r \<Rightarrow> if c = CHR ''+'' \<or> c = CHR ''-'' then r else digits m) = digits m"
    using cr c by simp
  show ?thesis
    by (simp add: parseInt_no_radix_def Let_def dw sg u h digits_nonempty takeWhile_digits
        decimal_value_digits)
qed

lemma parseInt_no_radix_minus_digits:
  "parseInt_no_radix (CHR ''-'' # digits m) = Num (- int m)"
  using take2_digits_not_hex [of m]
  by (simp add: parseInt_no_radix_def is_space_def digits_nonempty takeWhile_digits
      decimal_value_digits)

lemma parseInt_no_radix_int_toString: "parseInt_no_radix (int_toString i) = Num i"
  by (simp add: int_toString_def parseInt_no_radix_digits parseInt_no_radix_minus_digits)

text \<open>
  The calendar position of the pair emitted at a state of the walk: the list index runs
  spring, summer, fall, winter, the calendar of a year runs winter, spring, summer, fall.
\<close>

lemma calendar_position_emit:
  assumes "0 \<le> ix" "ix < 4"
  shows "calendar_position (emit (ix, y)) = Some (4 * y + (ix + 1) mod 4)"
proof -
  from assms have "ix \<in> {0, 1, 2, 3}" by auto
  then show ?thesis
    by (auto simp: calendar_position_def emit_def parseInt_no_radix_int_toString
        js_index_def termOrder_def)
qed

text \<open>
  One pass of the loop against the calendar. From summer and from fall the next pair is
  one position earlier. From spring of \<open>Y\<close> the loop goes to \<open>(Y-1, winter)\<close>, five
  positions earlier: the winter between fall of \<open>Y-1\<close> and spring of \<open>Y\<close>, which is
  \<open>(Y, winter)\<close>, is passed over. From \<open>(Y, winter)\<close> the loop goes to \<open>(Y, fall)\<close>, three
  positions later.
\<close>

lemma walk_step_calendar:
  assumes "0 \<le> ix" "ix < 4"
  shows "calendar_position (emit (walk_step (ix, y)))
           = Some (4 * y + (ix + 1) mod 4 + (if ix = 3 then 3 else if ix = 0 then - 5 else - 1))"
proof -
  from assms consider "ix = 0" | "ix = 1" | "ix = 2" | "ix = 3" by force
  then show ?thesis
  proof cases
    assume "ix = 0" then show ?thesis
      using calendar_position_emit [of 3 "y - 1"]
      by (simp add: walk_step_def move_back_def js_index_def termOrder_def)
  next
    assume "ix = 1" then show ?thesis
      using calendar_position_emit [of 0 y]
      by (simp add: walk_step_def move_back_def js_index_def termOrder_def)
  next
    assume "ix = 2" then show ?thesis
      using calendar_position_emit [of 1 y]
      by (simp add: walk_step_def move_back_def js_index_def termOrder_def)
  next
    assume "ix = 3" then show ?thesis
      using calendar_position_emit [of 2 y]
      by (simp add: walk_step_def move_back_def js_index_def termOrder_def)
  qed
qed

text \<open>
  What holds of the list for every clock and every count from 0 on: it has exactly
  \<open>count\<close> entries, no pair occurs twice, and a count of 0 gives the empty list.
\<close>

lemma emit_inj:
  assumes "0 \<le> fst a" "fst a < 4" "0 \<le> fst b" "fst b < 4" "emit a = emit b"
  shows "a = b"
proof -
  define p where "p = (fst a + 1) mod 4"
  define q where "q = (fst b + 1) mod 4"
  have "calendar_position (emit (fst a, snd a)) = calendar_position (emit (fst b, snd b))"
    using assms(5) by simp
  then have e: "4 * snd a + p = 4 * snd b + q"
    using calendar_position_emit [of "fst a" "snd a"] calendar_position_emit [of "fst b" "snd b"]
      assms(1-4) by (simp add: p_def q_def)
  have "0 \<le> p" "p < 4" "0 \<le> q" "q < 4" by (simp_all add: p_def q_def)
  with e have y: "snd a = snd b" by presburger
  with e have "p = q" by simp
  then have "(fst a + 1) mod 4 = (fst b + 1) mod 4" by (simp add: p_def q_def)
  with assms(1-4) have "fst a = fst b" by presburger
  with y show ?thesis by (simp add: prod_eq_iff)
qed

lemma generateTermsToScrape_count:
  assumes "0 \<le> n"
  shows "length (generateTermsToScrape now n) = nat n
       \<and> distinct (generateTermsToScrape now n)
       \<and> generateTermsToScrape now 0 = []"
proof -
  let ?ts = "generateTermsToScrape now n"
  have len: "length ?ts = nat n"
    by (simp add: generateTermsToScrape_eq)
  have nth: "?ts ! k = emit (walk_state now k)" if "k < nat n" for k
    using that by (simp add: generateTermsToScrape_eq)
  have dist: "distinct ?ts"
    unfolding distinct_conv_nth
  proof (intro allI impI)
    fix i j assume ij: "i < length ?ts" "j < length ?ts" "i \<noteq> j"
    have inv: "0 \<le> fst (walk_state now i)" "fst (walk_state now i) < 4"
      "0 \<le> fst (walk_state now j)" "fst (walk_state now j) < 4"
      using walk_state_inv [of now i] walk_state_inv [of now j] by simp_all
    have "walk_state now i \<noteq> walk_state now j"
    proof
      assume eq: "walk_state now i = walk_state now j"
      have "4 * snd (walk_state now i) + fst (walk_state now i)
              = 4 * snd (start_state now) + fst (start_state now) - int i"
        and "4 * snd (walk_state now j) + fst (walk_state now j)
              = 4 * snd (start_state now) + fst (start_state now) - int j"
        using walk_state_inv [of now i] walk_state_inv [of now j] by blast+
      then have "int i = int j" unfolding eq by linarith
      then show False using ij(3) by simp
    qed
    then have "emit (walk_state now i) \<noteq> emit (walk_state now j)"
      using emit_inj [OF inv] by blast
    then show "?ts ! i \<noteq> ?ts ! j"
      using ij len by (simp add: nth)
  qed
  have "generateTermsToScrape now 0 = []"
    by (simp add: generateTermsToScrape_eq)
  with len dist show ?thesis by blast
qed

text \<open>
  In January the walk starts at winter with the current year and goes on to fall of the
  same year; \<open>getTermName\<close> reads that winter as the one that began the year before.
\<close>

lemma january_names:
  "getTermName ''2026'' ''winter'' = ''Winter 2025-2026''
   \<and> getTermName ''2026'' ''fall'' = ''Fall 2026''"
  by code_simp

lemma january_walk:
  "generateTermsToScrape \<lparr>getFullYear = 2026, getMonth = 0\<rparr> 2
     = [\<lparr>year = ''2026'', term_name = Some ''winter''\<rparr>,
        \<lparr>year = ''2026'', term_name = Some ''fall''\<rparr>]"
proof -
  have a: "start_state \<lparr>getFullYear = 2026, getMonth = 0\<rparr> = (3, 2026)" by code_simp
  have b: "walk_step (3, 2026) = (2, 2026)" by code_simp
  have c: "emit (3, 2026) = \<lparr>year = ''2026'', term_name = Some ''winter''\<rparr>" by code_simp
  have d: "emit (2, 2026) = \<lparr>year = ''2026'', term_name = Some ''fall''\<rparr>" by code_simp
  have "[0 ..< nat 2] = [0, Suc 0]" by (simp add: upt_rec)
  then show ?thesis
    by (simp add: generateTermsToScrape_eq walk_state_def a b c d)
qed

text \<open>
  In March the walk starts at spring and goes on to the winter of the year before, which
  \<open>getTermName\<close> reads as the winter one year further back.
\<close>

lemma march_names:
  "getTermName ''2026'' ''spring'' = ''Spring 2026''
   \<and> getTermName ''2025'' ''winter'' = ''Winter 2024-2025''
   \<and> getTermName ''2025'' ''fall'' = ''Fall 2025''"
  by code_simp

lemma march_walk:
  "generateTermsToScrape \<lparr>getFullYear = 2026, getMonth = 2\<rparr> 3
     = [\<lparr>year = ''2026'', term_name = Some ''spring''\<rparr>,
        \<lparr>year = ''2025'', term_name = Some ''winter''\<rparr>,
        \<lparr>year = ''2025'', term_name = Some ''fall''\<rparr>]"
proof -
  have a: "start_state \<lparr>getFullYear = 2026, getMonth = 2\<rparr> = (0, 2026)" by code_simp
  have b: "walk_step (0, 2026) = (3, 2025)" "walk_step (3, 2025) = (2, 2025)" by code_simp+
  have c: "emit (0, 2026) = \<lparr>year = ''2026'', term_name = Some ''spring''\<rparr>" by code_simp
  have d: "emit (3, 2025) = \<lparr>year = ''2025'', term_name = Some ''winter''\<rparr>" by code_simp
  have e: "emit (2, 2025) = \<lparr>year = ''2025'', term_name = Some ''fall''\<rparr>" by code_simp
  have "[0 ..< nat 3] = [0, Suc 0, Suc (Suc 0)]" by (simp add: upt_rec)
  then show ?thesis
    by (simp add: generateTermsToScrape_eq walk_state_def a b c d e)
qed

lemma example_positions:
  "calendar_position \<lparr>year = ''2026'', term_name = Some ''winter''\<rparr> = Some 8104"
  "calendar_position \<lparr>year = ''2026'', term_name = Some ''fall''\<rparr> = Some 8107"
  "calendar_position \<lparr>year = ''2026'', term_name = Some ''spring''\<rparr> = Some 8105"
  "calendar_position \<lparr>year = ''2025'', term_name = Some ''winter''\<rparr> = Some 8100"
  "calendar_position \<lparr>year = ''2025'', term_name = Some ''fall''\<rparr> = Some 8103"
  by code_simp+

text \<open>
  Claim C5 does not hold of the code: the list is not in descending chronological order,
  and consecutive pairs are not always one backward step of the cycle apart. Run in
  January 2026 with a count of 2, the walk returns \<open>2026/winter\<close>, which the program
  names Winter 2025-2026, and then \<open>2026/fall\<close>, Fall 2026: the second term is three
  positions later than the first and has not begun. Run in March 2026 with a count of 3,
  it returns Spring 2026, then \<open>2025/winter\<close>, named Winter 2024-2025, then Fall 2025:
  the second term is five positions before the first, Winter 2025-2026 is left out, and
  the third term is later than the second. In neither list is every pair later than the
  pairs after it.
\<close>

theorem planTerms_not_chronological:
  "generateTermsToScrape \<lparr>getFullYear = 2026, getMonth = 0\<rparr> 2
     = [\<lparr>year = ''2026'', term_name = Some ''winter''\<rparr>,
        \<lparr>year = ''2026'', term_name = Some ''fall''\<rparr>]
   \<and> getTermName ''2026'' ''winter'' = ''Winter 2025-2026''
   \<and> getTermName ''2026'' ''fall'' = ''Fall 2026''
   \<and> map calendar_position (generateTermsToScrape \<lparr>getFullYear = 2026, getMonth = 0\<rparr> 2)
       = [Some 8104, Some 8107]
   \<and> \<not> sorted_wrt later_than (generateTermsToScrape \<lparr>getFullYear = 2026, getMonth = 0\<rparr> 2)
   \<and> generateTermsToScrape \<lparr>getFullYear = 2026, getMonth = 2\<rparr> 3
       = [\<lparr>year = ''2026'', term_name = Some ''spring''\<rparr>,
          \<lparr>year = ''2025'', term_name = Some ''winter''\<rparr>,
          \<lparr>year = ''2025'', term_name = Some ''fall''\<rparr>]
   \<and> getTermName ''2026'' ''spring'' = ''Spring 2026''
   \<and> getTermName ''2025'' ''winter'' = ''Winter 2024-2025''
   \<and> getTermName ''2025'' ''fall'' = ''Fall 2025''
   \<and> map calendar_position (generateTermsToScrape \<lparr>getFullYear = 2026, getMonth = 2\<rparr> 3)
       = [Some 8105, Some 8100, Some 8103]
   \<and> \<not> sorted_wrt later_than (generateTermsToScrape \<lparr>getFullYear = 2026, getMonth = 2\<rparr> 3)"
proof -
  have j: "\<not> sorted_wrt later_than [\<lparr>year = ''2026'', term_name = Some ''winter''\<rparr>,
        \<lparr>year = ''2026'', term_name = Some ''fall''\<rparr>]"
    by (simp add: later_than_def example_positions)
  have m: "\<not> sorted_wrt later_than [\<lparr>year = ''2026'', term_name = Some ''spring''\<rparr>,
          \<lparr>year = ''2025'', term_name = Some ''winter''\<rparr>,
          \<lparr>year = ''2025'', term_name = Some ''fall''\<rparr>]"
    by (simp add: later_than_def example_positions)
  show ?thesis
    unfolding january_walk march_walk
    using january_names march_names j m
    by (simp add: example_positions)
qed

subsection \<open>Term codes, configuration, pacing\<close>

lemma getTermCode_fall: "getTermCode ''2025'' ''fall'' = Inr ''202508''"
  by (simp add: getTermCode_def get_property_def termCodes_def toLowerCase_def lower_char_def)

lemma getTermCode_bogus: "getTermCode ''2025'' ''bogus'' = Inl (Error ''Invalid term: bogus'')"
  by (simp add: getTermCode_def get_property_def termCodes_def toLowerCase_def lower_char_def
      object_prototype_def)

lemma getTermCode_table:
  assumes "map_of termCodes (toLowerCase trm) = Some (JsString code)"
  shows "getTermCode yr trm = Inr (yr @ code) \<and> code \<in> {''02'', ''05'', ''08'', ''12''}"
proof -
  have "(toLowerCase trm, JsString code) \<in> set termCodes"
    using assms by (rule map_of_SomeD)
  then have "code \<in> {''02'', ''05'', ''08'', ''12''}"
    by (auto simp: termCodes_def)
  then show ?thesis
    using assms by (auto simp: getTermCode_def get_property_def)
qed

lemma getTermCode_invalid:
  assumes "map_of termCodes (toLowerCase trm) = None"
    and "map_of object_prototype (toLowerCase trm) = None"
  shows "getTermCode yr trm = Inl (Error (''Invalid term: '' @ trm))"
  using assms by (simp add: getTermCode_def get_property_def)

text \<open>
  Claim C8. The table lookup gives year plus code for the four names
  (\<open>getTermCode_fall\<close>, \<open>getTermCode_table\<close>) and the error for a name that is neither
  in the table nor a property of \<open>Object.prototype\<close> (\<open>getTermCode_invalid\<close>,
  \<open>getTermCode_bogus\<close>). For the unrecognised term name \<open>constructor\<close> the lookup finds
  the inherited property, the check \<open>!code\<close> passes, and a value is returned where the
  claim asks for the error.
\<close>

theorem getTermCode_inherited_property:
  "getTermCode ''2025'' ''constructor'' = Inr ''2025function Object() { [native code] }''"
  by (simp add: getTermCode_def get_property_def termCodes_def toLowerCase_def lower_char_def
      object_prototype_def)

text \<open>
  Claim C10. A variable that is set to a text from which no integer can be read makes
  \<open>getIntConfig\<close> return \<open>NaN\<close>, not \<open>null\<close>: the result is \<open>null\<close> exactly when the
  variable is absent, so \<open>??\<close> keeps the \<open>NaN\<close> and the default (2 for CONCURRENCY) is
  applied only to an absent variable.
\<close>

theorem getIntConfig_malformed:
  assumes "penv key = Some v" and "int_prefix v = []"
  shows "parseInt v = NaN
       \<and> getIntConfig penv key = Some NaN
       \<and> getIntConfig penv key \<noteq> None
       \<and> nullish (getIntConfig penv key) d = NaN
       \<and> (getIntConfig penv k = None) = (penv k = None)
       \<and> (key = ''CONCURRENCY'' \<longrightarrow> CONCURRENCY penv = NaN)
       \<and> (penv ''CONCURRENCY'' = None \<longrightarrow> CONCURRENCY penv = Num 2)"
  using assms
  by (auto simp: getIntConfig_def try_parseInt_def parseInt_def nullish_def CONCURRENCY_def
      split: option.splits)

theorem getIntConfig_malformed_witness:
  "[''CONCURRENCY'' \<mapsto> ''abc''] ''CONCURRENCY'' = Some ''abc''
   \<and> int_prefix ''abc'' = []
   \<and> getIntConfig [''CONCURRENCY'' \<mapsto> ''abc''] ''CONCURRENCY'' = Some NaN
   \<and> CONCURRENCY [''CONCURRENCY'' \<mapsto> ''abc''] = NaN"
proof -
  have a: "int_prefix ''abc'' = []"
    by (simp add: int_prefix_def is_space_def is_digit_def)
  have b: "[''CONCURRENCY'' \<mapsto> ''abc''] ''CONCURRENCY'' = Some ''abc''" by simp
  show ?thesis
    using getIntConfig_malformed [of "[''CONCURRENCY'' \<mapsto> ''abc'']" "''CONCURRENCY''" "''abc''"
        "Num 2" "''CONCURRENCY''"] a b
    by simp
qed

text \<open>
  Claim C9. For every jitter sample \<open>random * 2 - 1\<close> in \<open>[-1, 1]\<close> the delay is
  \<open>max 100 (baseMs + baseMs * jitterFraction * sample)\<close>; it is never below 100, and
  for a base of 1000 and a fraction of 0.3 it lies in \<open>[100, 1300]\<close>.
\<close>

theorem sleep_delay_floor:
  assumes "- 1 \<le> random * 2 - 1" and "random * 2 - 1 \<le> 1"
  shows "sleep_actualDelay baseMs (Some jitterFraction) random
           = max 100 (baseMs + baseMs * jitterFraction * (random * 2 - 1))
       \<and> 100 \<le> sleep_actualDelay baseMs (Some jitterFraction) random
       \<and> 100 \<le> sleep_actualDelay 1000 (Some (3 / 10)) random
       \<and> sleep_actualDelay 1000 (Some (3 / 10)) random \<le> 1300
       \<and> sleep_actualDelay 1000 None random = sleep_actualDelay 1000 (Some (3 / 10)) random"
  using assms by (auto simp: sleep_actualDelay_def Let_def max_def)

theorem sleep_delay_floor_witness:
  "- 1 \<le> (0 :: real) * 2 - 1 \<and> (0 :: real) * 2 - 1 \<le> 1
   \<and> sleep_actualDelay 1000 (Some (3 / 10)) 0 = 700
   \<and> sleep_actualDelay 50 (Some (3 / 10)) 0 = 100"
  using sleep_delay_floor [of 0 1000 "3 / 10"] sleep_delay_floor [of 0 50 "3 / 10"]
  by (simp add: max_def)

section \<open>Properties of index.ts\<close>

subsection \<open>Steps of a pool run\<close>

lemma step_not_running: "loop p \<noteq> Running \<Longrightarrow> step cfg e p = p"
  by (simp add: step_def)

lemma run_not_running: "loop p \<noteq> Running \<Longrightarrow> run cfg evs p = p"
  by (induction evs) (simp_all add: run_def step_not_running)

lemma run_Nil: "run cfg [] p = p"
  by (simp add: run_def)

lemma run_Cons: "run cfg (e # evs) p = run cfg evs (step cfg e p)"
  by (simp add: run_def)

lemma run_append: "run cfg (evs @ evs') p = run cfg evs' (run cfg evs p)"
  by (simp add: run_def)

lemma settle_429:
  "scrapeWithDelay_settle g c (Rejected (Some 429) m) =
     (let g' = g\<lparr>rateLimitCount := rateLimitCount g + 1, console := console g @ [RateLimited c]\<rparr>;
          g1 = (if rateLimitCount g + 1 > 5
                then g'\<lparr>console := console g' @ [ExcessiveRateLimiting (rateLimitCount g + 1)]\<rparr>
                else g');
          g2 = (if \<not> abortRequested g
                then g1\<lparr>console := console g1 @ [FailedToScrape c m]\<rparr> else g1)
      in (g2, skip_result c))"
  by (simp add: scrapeWithDelay_settle_def Let_def)


lemma settle_abort_mono:
  "abortRequested g \<Longrightarrow> abortRequested (fst (scrapeWithDelay_settle g c oc))"
  by (cases oc) (simp_all add: scrapeWithDelay_settle_def Let_def)

lemma settle_calls: "calls (fst (scrapeWithDelay_settle g c oc)) = calls g"
  by (cases oc) (simp_all add: scrapeWithDelay_settle_def Let_def)

lemma settle_totalRequests: "totalRequests (fst (scrapeWithDelay_settle g c oc)) = totalRequests g"
  by (cases oc) (simp_all add: scrapeWithDelay_settle_def Let_def)

lemma settle_course: "course (snd (scrapeWithDelay_settle g c oc)) = c"
  by (cases oc) (simp_all add: scrapeWithDelay_settle_def Let_def skip_result_def)

lemma callback_aborted:
  "abortRequested g \<Longrightarrow> pool_callback g c d = (g, Some (skip_result c))"
  by (simp add: pool_callback_def)

lemma callback_not_aborted:
  "\<not> abortRequested g \<Longrightarrow> pool_callback g c d = (g\<lparr>calls := calls g @ [SleepCall d]\<rparr>, None)"
  by (simp add: pool_callback_def scrapeWithDelay_enter_def)

lemma step_Admit:
  "loop p = Running \<Longrightarrow> step cfg Admit p =
     (if admitted p < length (coursesToScrape cfg) then
        (if abortRequested (glob p) then
           p\<lparr>tasks := (tasks p)[admitted p :=
                 Settled (skip_result (coursesToScrape cfg ! admitted p))],
             admitted := admitted p + 1\<rparr>
         else
           p\<lparr>glob := (glob p)\<lparr>calls := calls (glob p) @ [SleepCall (delay cfg)]\<rparr>,
             tasks := (tasks p)[admitted p := Sleeping],
             admitted := admitted p + 1\<rparr>)
      else p)"
  by (simp add: step_def Let_def callback_aborted callback_not_aborted)

lemma step_Wake:
  "loop p = Running \<Longrightarrow> step cfg (Wake i) p =
     (if i < length (coursesToScrape cfg) \<and> i < length (tasks p) \<and> tasks p ! i = Sleeping then
        p\<lparr>glob := scrapeWithDelay_wake (glob p) (pool_year cfg) (pool_term cfg)
                    (coursesToScrape cfg ! i),
          tasks := (tasks p)[i := Fetching]\<rparr>
      else p)"
  by (simp add: step_def)

lemma step_Respond:
  "loop p = Running \<Longrightarrow> step cfg (Respond i oc) p =
     (if i < length (coursesToScrape cfg) \<and> i < length (tasks p) \<and> tasks p ! i = Fetching then
        p\<lparr>glob := fst (scrapeWithDelay_settle (glob p) (coursesToScrape cfg ! i) oc),
          tasks := (tasks p)[i := Settled (snd (scrapeWithDelay_settle (glob p)
                                                  (coursesToScrape cfg ! i) oc))]\<rparr>
      else p)"
  by (simp add: step_def case_prod_beta)

lemma step_Yield:
  "loop p = Running \<Longrightarrow> i < length (tasks p) \<Longrightarrow> tasks p ! i = Settled r \<Longrightarrow>
   step cfg (Yield i) p =
     p\<lparr>agg := consume (convertCourse cfg) r (agg p),
       tasks := (tasks p)[i := Yielded],
       consumed := consumed p @ [(i, r)],
       loop := (if abortRequested (glob p) then Broke
                else if list_all (\<lambda>t. t = Yielded) ((tasks p)[i := Yielded]) then Exhausted
                else Running)\<rparr>"
  by (simp add: step_def Let_def)

lemma step_Yield_other:
  "i \<ge> length (tasks p) \<or> (\<forall>r. tasks p ! i \<noteq> Settled r) \<Longrightarrow> step cfg (Yield i) p = p"
  by (auto simp: step_def split: task.splits)

text \<open>
  Claim C7. A fetch that fails with HTTP 429 adds one to \<open>rateLimitCount\<close> and leaves the
  abort flag and the 403 counter as they were; the warning about excessive rate limiting
  is printed exactly when the new count exceeds 5. In the pool the response leaves the
  result loop running and the flag unchanged, so dispatching continues.
\<close>

theorem rate_limit_counts_without_abort:
  "rateLimitCount (fst (scrapeWithDelay_settle g c (Rejected (Some 429) m))) = rateLimitCount g + 1
   \<and> abortRequested (fst (scrapeWithDelay_settle g c (Rejected (Some 429) m))) = abortRequested g
   \<and> forbidden403Count (fst (scrapeWithDelay_settle g c (Rejected (Some 429) m))) = forbidden403Count g
   \<and> (ExcessiveRateLimiting (rateLimitCount g + 1)
        \<in> set (drop (length (console g))
                 (console (fst (scrapeWithDelay_settle g c (Rejected (Some 429) m))))))
      = (5 < rateLimitCount g + 1)
   \<and> loop (step cfg (Respond i (Rejected (Some 429) m)) p) = loop p
   \<and> admitted (step cfg (Respond i (Rejected (Some 429) m)) p) = admitted p
   \<and> abortRequested (glob (step cfg (Respond i (Rejected (Some 429) m)) p))
      = abortRequested (glob p)"
proof -
  have a: "abortRequested (fst (scrapeWithDelay_settle g c (Rejected (Some 429) m))) = abortRequested g"
    for g :: globals and c
    by (simp add: settle_429 Let_def)
  have b: "loop (step cfg (Respond i (Rejected (Some 429) m)) p) = loop p
     \<and> admitted (step cfg (Respond i (Rejected (Some 429) m)) p) = admitted p
     \<and> abortRequested (glob (step cfg (Respond i (Rejected (Some 429) m)) p))
        = abortRequested (glob p)"
  proof (cases "loop p = Running")
    case True
    then show ?thesis by (simp add: step_Respond settle_429 Let_def)
  next
    case False
    then show ?thesis by (simp add: step_not_running)
  qed
  have c: "(ExcessiveRateLimiting (rateLimitCount g + 1)
        \<in> set (drop (length (console g))
                 (console (fst (scrapeWithDelay_settle g c (Rejected (Some 429) m))))))
      = (5 < rateLimitCount g + 1)"
    by (simp add: settle_429 Let_def)
  show ?thesis
    using a b c by (simp add: settle_429 Let_def)
qed

subsection \<open>After the abort flag is set\<close>

lemma step_abort_mono:
  assumes "abortRequested (glob p)"
  shows "abortRequested (glob (step cfg e p))"
proof (cases "loop p = Running")
  case False
  then show ?thesis using assms by (simp add: step_not_running)
next
  case True
  show ?thesis
  proof (cases e)
    case Admit
    then show ?thesis using True assms by (simp add: step_Admit)
  next
    case (Wake i)
    then show ?thesis using True assms by (simp add: step_Wake scrapeWithDelay_wake_def)
  next
    case (Respond i oc)
    then show ?thesis using True assms by (simp add: step_Respond settle_abort_mono)
  next
    case (Yield i)
    then show ?thesis using True assms
      by (simp add: step_def Let_def split: task.splits)
  qed
qed

lemma run_abort_mono:
  "abortRequested (glob p) \<Longrightarrow> abortRequested (glob (run cfg evs p))"
  by (induction evs arbitrary: p) (simp_all add: run_Nil run_Cons step_abort_mono)

lemma step_length_tasks: "length (tasks (step cfg e p)) = length (tasks p)"
proof (cases "loop p = Running")
  case False
  then show ?thesis by (simp add: step_not_running)
next
  case True
  show ?thesis
  proof (cases e)
    case Admit
    then show ?thesis using True by (simp add: step_Admit)
  next
    case (Wake i)
    then show ?thesis using True by (simp add: step_Wake)
  next
    case (Respond i oc)
    then show ?thesis using True by (simp add: step_Respond)
  next
    case (Yield i)
    then show ?thesis using True by (simp add: step_def Let_def split: task.splits)
  qed
qed

lemma run_length_tasks: "length (tasks (run cfg evs p)) = length (tasks p)"
  by (induction evs arbitrary: p) (simp_all add: run_Nil run_Cons step_length_tasks)

lemma step_skipped:
  assumes "abortRequested (glob p)" and "i < length (tasks p)" and "skipped cfg i (tasks p ! i)"
  shows "skipped cfg i (tasks (step cfg e p) ! i)"
proof (cases "loop p = Running")
  case False
  then show ?thesis using assms by (simp add: step_not_running)
next
  case True
  show ?thesis
  proof (cases e)
    case Admit
    then show ?thesis using True assms
      by (cases "i = admitted p") (simp_all add: step_Admit skipped_def)
  next
    case (Wake j)
    then show ?thesis using True assms
      by (cases "i = j") (auto simp: step_Wake skipped_def)
  next
    case (Respond j oc)
    then show ?thesis using True assms
      by (cases "i = j") (auto simp: step_Respond skipped_def)
  next
    case (Yield j)
    then show ?thesis using True assms
      by (cases "i = j") (auto simp: step_def Let_def skipped_def split: task.splits)
  qed
qed

lemma run_skipped:
  "abortRequested (glob p) \<Longrightarrow> i < length (tasks p) \<Longrightarrow> skipped cfg i (tasks p ! i)
   \<Longrightarrow> skipped cfg i (tasks (run cfg evs p) ! i)"
proof (induction evs arbitrary: p)
  case Nil
  then show ?case by (simp add: run_Nil)
next
  case (Cons e evs)
  show ?case
    unfolding run_Cons
    by (rule Cons.IH) (simp_all add: Cons.prems step_abort_mono step_length_tasks step_skipped)
qed

lemma sleeping_update:
  "i < length ts \<Longrightarrow>
   sleeping (ts[i := t]) + (if ts ! i = Sleeping then 1 else 0)
     = sleeping ts + (if t = Sleeping then 1 else 0)"
proof (induction ts arbitrary: i)
  case Nil
  then show ?case by simp
next
  case (Cons a ts)
  then show ?case
    by (cases i) (auto simp: sleeping_def)
qed

lemma step_budget:
  assumes "abortRequested (glob p)"
  shows "sleep_calls (glob (step cfg e p)) = sleep_calls (glob p)
       \<and> fetch_calls (glob (step cfg e p)) + sleeping (tasks (step cfg e p))
           \<le> fetch_calls (glob p) + sleeping (tasks p)
       \<and> totalRequests (glob (step cfg e p)) + sleeping (tasks (step cfg e p))
           \<le> totalRequests (glob p) + sleeping (tasks p)"
proof (cases "loop p = Running")
  case False
  then show ?thesis by (simp add: step_not_running)
next
  case True
  show ?thesis
  proof (cases e)
    case Admit
    show ?thesis
    proof (cases "admitted p < length (tasks p)")
      case t: True
      from sleeping_update [OF t, of "Settled (skip_result (coursesToScrape cfg ! admitted p))"]
      show ?thesis using Admit True assms by (simp add: step_Admit split: if_splits)
    next
      case False
      then have "(tasks p)[admitted p := t] = tasks p" for t
        by (simp add: not_less list_update_beyond)
      then show ?thesis using Admit True assms by (simp add: step_Admit)
    qed
  next
    case (Wake j)
    show ?thesis
    proof (cases "j < length (coursesToScrape cfg) \<and> j < length (tasks p) \<and> tasks p ! j = Sleeping")
      case t: True
      then have "sleeping ((tasks p)[j := Fetching]) + 1 = sleeping (tasks p)"
        using sleeping_update [of j "tasks p" Fetching] by simp
      then show ?thesis using Wake True t
        by (simp add: step_Wake scrapeWithDelay_wake_def sleep_calls_def fetch_calls_def)
    next
      case False
      then have "step cfg e p = p" using Wake True by (auto simp: step_Wake)
      then show ?thesis by simp
    qed
  next
    case (Respond j oc)
    show ?thesis
    proof (cases "j < length (coursesToScrape cfg) \<and> j < length (tasks p) \<and> tasks p ! j = Fetching")
      case t: True
      then have "sleeping ((tasks p)[j := Settled r]) = sleeping (tasks p)" for r
        using sleeping_update [of j "tasks p" "Settled r"] by simp
      then show ?thesis using Respond True t
        by (simp add: step_Respond sleep_calls_def fetch_calls_def settle_calls settle_totalRequests)
    next
      case False
      then have "step cfg e p = p" using Respond True by (auto simp: step_Respond)
      then show ?thesis by simp
    qed
  next
    case (Yield j)
    show ?thesis
    proof (cases "j < length (tasks p) \<and> (\<exists>r. tasks p ! j = Settled r)")
      case t: True
      then obtain r where r: "tasks p ! j = Settled r" by blast
      then have "sleeping ((tasks p)[j := Yielded]) = sleeping (tasks p)"
        using t sleeping_update [of j "tasks p" Yielded] by simp
      then show ?thesis using Yield True t r by (simp add: step_Yield)
    next
      case False
      then have "step cfg (Yield j) p = p" by (intro step_Yield_other) auto
      then show ?thesis using Yield by simp
    qed
  qed
qed

lemma run_budget:
  "abortRequested (glob p) \<Longrightarrow>
   sleep_calls (glob (run cfg evs p)) = sleep_calls (glob p)
   \<and> fetch_calls (glob (run cfg evs p)) + sleeping (tasks (run cfg evs p))
       \<le> fetch_calls (glob p) + sleeping (tasks p)
   \<and> totalRequests (glob (run cfg evs p)) + sleeping (tasks (run cfg evs p))
       \<le> totalRequests (glob p) + sleeping (tasks p)"
proof (induction evs arbitrary: p)
  case Nil
  then show ?case by (simp add: run_Nil)
next
  case (Cons e evs)
  have a: "abortRequested (glob (step cfg e p))"
    using Cons.prems by (rule step_abort_mono)
  show ?case
    unfolding run_Cons
    using Cons.IH [OF a] step_budget [OF Cons.prems, of cfg e] by linarith
qed

lemma step_becomes_sleeping:
  assumes "tasks (step cfg e p) ! i = Sleeping" and "tasks p ! i \<noteq> Sleeping"
    and "i < length (tasks p)"
  shows "\<not> abortRequested (glob p) \<and> e = Admit \<and> i = admitted p"
proof (cases "loop p = Running")
  case False
  then show ?thesis using assms by (simp add: step_not_running)
next
  case True
  show ?thesis
  proof (cases e)
    case Admit
    then show ?thesis using True assms
      by (cases "i = admitted p") (auto simp: step_Admit split: if_splits)
  next
    case (Wake j)
    then show ?thesis using True assms
      by (cases "i = j") (auto simp: step_Wake split: if_splits)
  next
    case (Respond j oc)
    then show ?thesis using True assms
      by (cases "i = j") (auto simp: step_Respond split: if_splits)
  next
    case (Yield j)
    then show ?thesis using True assms
      by (cases "i = j") (auto simp: step_def Let_def split: task.splits if_splits)
  qed
qed

lemma step_issues_fetch:
  assumes "fetch_calls (glob (step cfg e p)) \<noteq> fetch_calls (glob p)"
  shows "\<exists>i. e = Wake i \<and> i < length (tasks p) \<and> tasks p ! i = Sleeping
           \<and> tasks (step cfg e p) ! i = Fetching"
proof (cases "loop p = Running")
  case False
  then show ?thesis using assms by (simp add: step_not_running)
next
  case True
  show ?thesis
  proof (cases e)
    case Admit
    then show ?thesis using True assms
      by (auto simp: step_Admit fetch_calls_def split: if_splits)
  next
    case (Wake j)
    then show ?thesis using True assms
      by (auto simp: step_Wake split: if_splits)
  next
    case (Respond j oc)
    then show ?thesis using True assms
      by (auto simp: step_Respond fetch_calls_def settle_calls split: if_splits)
  next
    case (Yield j)
    then show ?thesis using True assms
      by (auto simp: step_def Let_def split: task.splits if_splits)
  qed
qed

subsection \<open>What the result loop has aggregated\<close>

lemma consume_ok:
  "ok r \<Longrightarrow> consume conv r a =
     a\<lparr>completed := completed a + 1,
       coursesMap := AList.update (courseKey (course r)) (conv (the (data r))) (coursesMap a),
       successCount := successCount a + 1\<rparr>"
  by (auto simp: consume_def ok_def Let_def)

lemma consume_not_ok:
  "\<not> ok r \<Longrightarrow> consume conv r a =
     a\<lparr>completed := completed a + 1, failureCount := failureCount a + 1\<rparr>"
  by (auto simp: consume_def ok_def Let_def split: option.splits)

lemma step_agg_other:
  assumes "\<forall>i. e \<noteq> Yield i"
  shows "agg (step cfg e p) = agg p \<and> consumed (step cfg e p) = consumed p"
proof (cases "loop p = Running")
  case False
  then show ?thesis by (simp add: step_not_running)
next
  case True
  show ?thesis
  proof (cases e)
    case Admit
    then show ?thesis using True by (simp add: step_Admit)
  next
    case (Wake i)
    then show ?thesis using True by (simp add: step_Wake)
  next
    case (Respond i oc)
    then show ?thesis using True by (simp add: step_Respond)
  next
    case (Yield i)
    then show ?thesis using assms by simp
  qed
qed

lemma step_agg_inv:
  assumes "agg_inv p"
  shows "agg_inv (step cfg e p)"
proof (cases "\<exists>i r. e = Yield i \<and> loop p = Running \<and> i < length (tasks p) \<and> tasks p ! i = Settled r")
  case True
  then obtain i r where e: "e = Yield i" and run: "loop p = Running"
    and i: "i < length (tasks p)" and r: "tasks p ! i = Settled r" by blast
  have s: "agg (step cfg e p) = consume (convertCourse cfg) r (agg p)"
    "consumed (step cfg e p) = consumed p @ [(i, r)]"
    using e run i r by (simp_all add: step_Yield)
  show ?thesis
  proof (cases "ok r")
    case True
    then show ?thesis
      using assms s
      by (auto simp: agg_inv_def consume_ok update_keys distinct_update)
  next
    case False
    then show ?thesis
      using assms s by (simp add: agg_inv_def consume_not_ok)
  qed
next
  case False
  have "agg (step cfg e p) = agg p \<and> consumed (step cfg e p) = consumed p"
  proof (cases "\<forall>i. e \<noteq> Yield i")
    case True
    then show ?thesis by (rule step_agg_other)
  next
    case f: False
    then obtain i where e: "e = Yield i" by blast
    show ?thesis
    proof (cases "loop p = Running")
      case True
      then have "i \<ge> length (tasks p) \<or> (\<forall>r. tasks p ! i \<noteq> Settled r)"
        using False e by auto
      then have "step cfg (Yield i) p = p" by (rule step_Yield_other)
      then show ?thesis using e by simp
    next
      case False
      then show ?thesis by (simp add: step_not_running)
    qed
  qed
  then show ?thesis using assms by (simp add: agg_inv_def)
qed

lemma init_agg_inv: "agg_inv (init_pool g cs)"
  by (simp add: agg_inv_def init_pool_def)

lemma run_agg_inv: "agg_inv p \<Longrightarrow> agg_inv (run cfg evs p)"
  by (induction evs arbitrary: p) (simp_all add: run_Nil run_Cons step_agg_inv)

lemma agg_inv_length_le:
  assumes "agg_inv p"
  shows "length (coursesMap (agg p)) \<le> successCount (agg p)"
proof -
  let ?ks = "map (\<lambda>r. courseKey (course r)) (filter ok (map snd (consumed p)))"
  have d: "distinct (map fst (coursesMap (agg p)))"
    using assms(1) by (simp add: agg_inv_def)
  have "length (coursesMap (agg p)) = card (set (map fst (coursesMap (agg p))))"
    using distinct_card [OF d] by simp
  also have "\<dots> = card (set ?ks)" using assms by (simp add: agg_inv_def)
  also have "\<dots> \<le> length ?ks" by (rule card_length)
  finally show ?thesis using assms by (simp add: agg_inv_def)
qed

lemma agg_inv_length_eq:
  assumes "agg_inv p"
    and "distinct (map (\<lambda>r. courseKey (course r)) (filter ok (map snd (consumed p))))"
  shows "length (coursesMap (agg p)) = successCount (agg p)"
proof -
  let ?ks = "map (\<lambda>r. courseKey (course r)) (filter ok (map snd (consumed p)))"
  have d: "distinct (map fst (coursesMap (agg p)))"
    using assms(1) by (simp add: agg_inv_def)
  have "length (coursesMap (agg p)) = card (set (map fst (coursesMap (agg p))))"
    using distinct_card [OF d] by simp
  also have "\<dots> = card (set ?ks)" using assms(1) by (simp add: agg_inv_def)
  also have "\<dots> = length ?ks" using assms(2) by (rule distinct_card)
  finally show ?thesis using assms(1) by (simp add: agg_inv_def)
qed

lemma init_task_inv: "task_inv cfg (init_pool g (coursesToScrape cfg))"
  by (auto simp: task_inv_def init_pool_def)

lemma step_task_inv:
  assumes "task_inv cfg p"
  shows "task_inv cfg (step cfg e p)"
proof (cases "loop p = Running")
  case False
  then show ?thesis using assms by (simp add: step_not_running)
next
  case True
  have len: "length (tasks p) = length (coursesToScrape cfg)"
    and queued: "\<And>i. admitted p \<le> i \<Longrightarrow> i < length (tasks p) \<Longrightarrow> tasks p ! i = Queued"
    and settled: "\<And>i r. i < length (tasks p) \<Longrightarrow> tasks p ! i = Settled r
                    \<Longrightarrow> course r = coursesToScrape cfg ! i"
    and dist: "distinct (map fst (consumed p))"
    and cons: "\<And>i r. (i, r) \<in> set (consumed p) \<Longrightarrow>
                 i < length (tasks p) \<and> tasks p ! i = Yielded \<and> course r = coursesToScrape cfg ! i"
    using assms unfolding task_inv_def by blast+
  show ?thesis
  proof (cases e)
    case Admit
    show ?thesis
    proof (cases "admitted p < length (coursesToScrape cfg)")
      case False
      then show ?thesis using Admit True assms by (simp add: step_Admit)
    next
      case a: True
      define X :: "'a task" where
        "X = (if abortRequested (glob p)
              then Settled (skip_result (coursesToScrape cfg ! admitted p)) else Sleeping)"
      have t: "tasks (step cfg e p) = (tasks p)[admitted p := X]"
        and ad: "admitted (step cfg e p) = admitted p + 1"
        and c: "consumed (step cfg e p) = consumed p"
        using Admit True a by (simp_all add: step_Admit X_def)
      have q: "tasks p ! admitted p = Queued" using queued [of "admitted p"] a len by simp
      have 1: "length (tasks (step cfg e p)) = length (coursesToScrape cfg)"
        using t len by simp
      have 2: "tasks (step cfg e p) ! i = Queued"
        if "admitted (step cfg e p) \<le> i" "i < length (tasks (step cfg e p))" for i
        using that t ad queued [of i] by simp
      have 3: "course r = coursesToScrape cfg ! i"
        if "i < length (tasks (step cfg e p))" "tasks (step cfg e p) ! i = Settled r" for i r
      proof (cases "i = admitted p")
        case True
        then show ?thesis using that t a len by (auto simp: X_def skip_result_def split: if_splits)
      next
        case False
        then show ?thesis using that t settled [of i r] by simp
      qed
      have 5: "i < length (tasks (step cfg e p)) \<and> tasks (step cfg e p) ! i = Yielded
                \<and> course r = coursesToScrape cfg ! i"
        if "(i, r) \<in> set (consumed (step cfg e p))" for i r
      proof -
        from that c have m: "(i, r) \<in> set (consumed p)" by simp
        then have "i \<noteq> admitted p" using cons [of i r] q by auto
        then show ?thesis using cons [OF m] t by simp
      qed
      show ?thesis
        unfolding task_inv_def using 1 2 3 5 dist c by auto
    qed
  next
    case (Wake j)
    show ?thesis
    proof (cases "j < length (coursesToScrape cfg) \<and> j < length (tasks p) \<and> tasks p ! j = Sleeping")
      case False
      then have "step cfg e p = p" using Wake True by (auto simp: step_Wake)
      then show ?thesis using assms by simp
    next
      case w: True
      have t: "tasks (step cfg e p) = (tasks p)[j := Fetching]"
        and ad: "admitted (step cfg e p) = admitted p"
        and c: "consumed (step cfg e p) = consumed p"
        using Wake True w by (simp_all add: step_Wake)
      have 2: "tasks (step cfg e p) ! i = Queued"
        if "admitted (step cfg e p) \<le> i" "i < length (tasks (step cfg e p))" for i
        using that t ad queued [of i] w by (cases "i = j") auto
      have 3: "course r = coursesToScrape cfg ! i"
        if "i < length (tasks (step cfg e p))" "tasks (step cfg e p) ! i = Settled r" for i r
        using that t settled [of i r] by (cases "i = j") auto
      have 5: "i < length (tasks (step cfg e p)) \<and> tasks (step cfg e p) ! i = Yielded
                \<and> course r = coursesToScrape cfg ! i"
        if "(i, r) \<in> set (consumed (step cfg e p))" for i r
        using that c cons [of i r] t w by (cases "i = j") auto
      show ?thesis
        unfolding task_inv_def using t len 2 3 5 dist c by auto
    qed
  next
    case (Respond j oc)
    show ?thesis
    proof (cases "j < length (coursesToScrape cfg) \<and> j < length (tasks p) \<and> tasks p ! j = Fetching")
      case False
      then have "step cfg e p = p" using Respond True by (auto simp: step_Respond)
      then show ?thesis using assms by simp
    next
      case w: True
      define r' where "r' = snd (scrapeWithDelay_settle (glob p) (coursesToScrape cfg ! j) oc)"
      have cr: "course r' = coursesToScrape cfg ! j" by (simp add: r'_def settle_course)
      have t: "tasks (step cfg e p) = (tasks p)[j := Settled r']"
        and ad: "admitted (step cfg e p) = admitted p"
        and c: "consumed (step cfg e p) = consumed p"
        using Respond True w by (simp_all add: step_Respond r'_def)
      have 2: "tasks (step cfg e p) ! i = Queued"
        if "admitted (step cfg e p) \<le> i" "i < length (tasks (step cfg e p))" for i
        using that t ad queued [of i] w by (cases "i = j") auto
      have 3: "course r = coursesToScrape cfg ! i"
        if "i < length (tasks (step cfg e p))" "tasks (step cfg e p) ! i = Settled r" for i r
        using that t settled [of i r] cr by (cases "i = j") auto
      have 5: "i < length (tasks (step cfg e p)) \<and> tasks (step cfg e p) ! i = Yielded
                \<and> course r = coursesToScrape cfg ! i"
        if "(i, r) \<in> set (consumed (step cfg e p))" for i r
        using that c cons [of i r] t w by (cases "i = j") auto
      show ?thesis
        unfolding task_inv_def using t len 2 3 5 dist c by auto
    qed
  next
    case (Yield j)
    show ?thesis
    proof (cases "j < length (tasks p) \<and> (\<exists>r. tasks p ! j = Settled r)")
      case False
      then have "step cfg (Yield j) p = p" by (intro step_Yield_other) auto
      then show ?thesis using assms Yield by simp
    next
      case w: True
      then obtain r' where r': "tasks p ! j = Settled r'" and j: "j < length (tasks p)" by blast
      have cr: "course r' = coursesToScrape cfg ! j" using settled [OF j r'] .
      have t: "tasks (step cfg e p) = (tasks p)[j := Yielded]"
        and ad: "admitted (step cfg e p) = admitted p"
        and c: "consumed (step cfg e p) = consumed p @ [(j, r')]"
        using Yield True j r' by (simp_all add: step_Yield)
      have 2: "tasks (step cfg e p) ! i = Queued"
        if "admitted (step cfg e p) \<le> i" "i < length (tasks (step cfg e p))" for i
        using that t ad queued [of i] r' by (cases "i = j") auto
      have 3: "course r = coursesToScrape cfg ! i"
        if "i < length (tasks (step cfg e p))" "tasks (step cfg e p) ! i = Settled r" for i r
        using that t settled [of i r] by (cases "i = j") auto
      have 4: "distinct (map fst (consumed (step cfg e p)))"
      proof -
        have "j \<notin> fst ` set (consumed p)"
        proof
          assume "j \<in> fst ` set (consumed p)"
          then obtain r where "(j, r) \<in> set (consumed p)" by auto
          then show False using cons [of j r] r' by simp
        qed
        then show ?thesis using dist c by simp
      qed
      have 5: "i < length (tasks (step cfg e p)) \<and> tasks (step cfg e p) ! i = Yielded
                \<and> course r = coursesToScrape cfg ! i"
        if "(i, r) \<in> set (consumed (step cfg e p))" for i r
      proof (cases "(i, r) = (j, r')")
        case True
        then show ?thesis using t j cr by simp
      next
        case False
        then have m: "(i, r) \<in> set (consumed p)" using that c by auto
        then show ?thesis using cons [OF m] t by (cases "i = j") auto
      qed
      show ?thesis
        unfolding task_inv_def using t len 2 3 4 5 by auto
    qed
  qed
qed

lemma run_task_inv: "task_inv cfg p \<Longrightarrow> task_inv cfg (run cfg evs p)"
  by (induction evs arbitrary: p) (simp_all add: run_Nil run_Cons step_task_inv)

lemma task_inv_distinct_keys:
  assumes "task_inv cfg p" and "distinct (map courseKey (coursesToScrape cfg))"
  shows "distinct (map (\<lambda>r. courseKey (course r)) (filter ok (map snd (consumed p))))"
proof -
  have cons: "\<And>i r. (i, r) \<in> set (consumed p) \<Longrightarrow>
                 i < length (coursesToScrape cfg) \<and> course r = coursesToScrape cfg ! i"
    using assms(1) unfolding task_inv_def by auto
  have dist: "distinct (map fst (consumed p))"
    using assms(1) unfolding task_inv_def by blast
  have eq: "map (\<lambda>x. courseKey (course (snd x))) (consumed p)
        = map (\<lambda>x. map courseKey (coursesToScrape cfg) ! fst x) (consumed p)"
    by (rule map_cong) (use cons in auto)
  have "inj_on (\<lambda>i. map courseKey (coursesToScrape cfg) ! i) (set (map fst (consumed p)))"
    unfolding inj_on_def
  proof (intro ballI impI)
    fix a b
    assume a: "a \<in> set (map fst (consumed p))" and b: "b \<in> set (map fst (consumed p))"
      and e: "map courseKey (coursesToScrape cfg) ! a = map courseKey (coursesToScrape cfg) ! b"
    from a b have "a < length (coursesToScrape cfg)" "b < length (coursesToScrape cfg)"
      using cons by auto
    then show "a = b"
      using e nth_eq_iff_index_eq [OF assms(2), of a b] by simp
  qed
  then have "distinct (map (\<lambda>i. map courseKey (coursesToScrape cfg) ! i) (map fst (consumed p)))"
    using dist distinct_map [of "\<lambda>i. map courseKey (coursesToScrape cfg) ! i" "map fst (consumed p)"]
    by blast
  then have "distinct (map (\<lambda>x. map courseKey (coursesToScrape cfg) ! fst x) (consumed p))"
    by (simp add: comp_def)
  then have "distinct (map (\<lambda>x. courseKey (course (snd x))) (consumed p))"
    by (simp only: eq)
  then have "distinct (map (\<lambda>r. courseKey (course r)) (map snd (consumed p)))"
    by (simp add: comp_def)
  then show ?thesis
    by (rule distinct_map_filter)
qed

lemma step_broke:
  assumes "loop p = Broke \<longrightarrow> abortRequested (glob p)"
  shows "loop (step cfg e p) = Broke \<longrightarrow> abortRequested (glob (step cfg e p))"
proof (cases "loop p = Running")
  case False
  then show ?thesis using assms by (simp add: step_not_running)
next
  case True
  show ?thesis
  proof (cases e)
    case Admit
    then show ?thesis using True by (simp add: step_Admit)
  next
    case (Wake i)
    then show ?thesis using True by (simp add: step_Wake)
  next
    case (Respond i oc)
    then show ?thesis using True by (simp add: step_Respond)
  next
    case (Yield i)
    then show ?thesis using True by (simp add: step_def Let_def split: task.splits)
  qed
qed

lemma run_broke:
  "loop p = Broke \<longrightarrow> abortRequested (glob p) \<Longrightarrow>
   loop (run cfg evs p) = Broke \<longrightarrow> abortRequested (glob (run cfg evs p))"
proof (induction evs arbitrary: p)
  case Nil
  then show ?case by (simp add: run_Nil)
next
  case (Cons e evs)
  show ?case unfolding run_Cons
    by (rule Cons.IH) (rule step_broke [OF Cons.prems])
qed

subsection \<open>Schedules of turns\<close>

lemma turn_abort_leaves:
  assumes "abortRequested (glob p) \<longrightarrow> loop p \<noteq> Running"
  shows "abortRequested (glob (run cfg (events_of_turn t) p))
           \<longrightarrow> loop (run cfg (events_of_turn t) p) \<noteq> Running"
proof (cases "loop p = Running")
  case False
  then show ?thesis using assms by (simp add: run_not_running)
next
  case True
  then have na: "\<not> abortRequested (glob p)" using assms by blast
  show ?thesis
  proof (cases t)
    case AdmitNext
    then show ?thesis using True na by (simp add: run_Cons run_Nil step_Admit)
  next
    case (Woken i)
    then show ?thesis using True na
      by (simp add: run_Cons run_Nil step_Wake scrapeWithDelay_wake_def)
  next
    case (Completed i oc)
    let ?q = "step cfg (Respond i oc) p"
    have r: "run cfg (events_of_turn t) p = step cfg (Yield i) ?q"
      using Completed by (simp add: run_Cons run_Nil)
    show ?thesis
    proof (cases "i < length (coursesToScrape cfg) \<and> i < length (tasks p) \<and> tasks p ! i = Fetching")
      case f: True
      define r' where "r' = snd (scrapeWithDelay_settle (glob p) (coursesToScrape cfg ! i) oc)"
      have q: "loop ?q = Running" "i < length (tasks ?q)" "tasks ?q ! i = Settled r'"
        using True f by (simp_all add: step_Respond r'_def)
      show ?thesis
        unfolding r using q by (simp add: step_Yield)
    next
      case False
      then have q: "?q = p" using True by (auto simp: step_Respond)
      show ?thesis
      proof (cases "i < length (tasks p) \<and> (\<exists>r. tasks p ! i = Settled r)")
        case s: True
        then obtain r' where "tasks p ! i = Settled r'" by blast
        then show ?thesis
          unfolding r q using True s na by (simp add: step_Yield)
      next
        case False
        then have "step cfg (Yield i) p = p" by (intro step_Yield_other) auto
        then show ?thesis unfolding r q using True na by simp
      qed
    qed
  qed
qed

lemma turns_abort_leaves:
  "abortRequested (glob p) \<longrightarrow> loop p \<noteq> Running \<Longrightarrow>
   abortRequested (glob (run cfg (turn_events ts) p))
     \<longrightarrow> loop (run cfg (turn_events ts) p) \<noteq> Running"
proof (induction ts arbitrary: p)
  case Nil
  then show ?case by (simp add: turn_events_def run_Nil)
next
  case (Cons t ts)
  have e: "turn_events (t # ts) = events_of_turn t @ turn_events ts"
    by (simp add: turn_events_def)
  show ?case
    unfolding e run_append
    by (rule Cons.IH) (rule turn_abort_leaves [OF Cons.prems])
qed

lemma turns_no_call_after_abort:
  assumes "\<not> abortRequested g"
    and "abortRequested (glob (run cfg (turn_events ts) (init_pool g cs)))"
  shows "run cfg evs (run cfg (turn_events ts) (init_pool g cs))
           = run cfg (turn_events ts) (init_pool g cs)"
proof -
  have "abortRequested (glob (init_pool g cs :: ('a, 'b) pool))
          \<longrightarrow> loop (init_pool g cs :: ('a, 'b) pool) \<noteq> Running"
    using assms(1) by (simp add: init_pool_def)
  then have "loop (run cfg (turn_events ts) (init_pool g cs)) \<noteq> Running"
    using turns_abort_leaves [of "init_pool g cs" cfg ts] assms(2) by blast
  then show ?thesis by (rule run_not_running)
qed

lemma blocked_schedule_turns:
  "blocked_schedule =
     turn_events [AdmitNext, AdmitNext, Woken 0, Woken 1, Completed 0 (Resolved (Some 3)),
                  AdmitNext, Woken 2, Completed 1 (Rejected (Some 403) ''Forbidden'')]"
  by (simp add: blocked_schedule_def turn_events_def)

subsection \<open>Abort and aggregation in a pool run\<close>

text \<open>
  Claim C2. With the abort flag set, the pool callback and \<open>scrapeWithDelay\<close> return the
  skip result at once and leave every global as it was: no call of \<open>sleep\<close>, no call of
  \<open>scrapeCourse\<close>, no count. Whatever happens next, the flag stays set, every task that
  was still queued ends as a skip without ever sleeping or fetching, no further pacing
  delay is started, and the number of fetches that can still be issued is at most the
  number of tasks that had passed the check and were in their pacing delay. The flag is
  read at admission only: a fetch is issued by the wake-up of a sleeping task, and a task
  sleeps only because its admission read the flag as false. In a schedule of turns the
  result that set the flag ends the loop in the same turn, so after the flag is set
  nothing is called at all.
\<close>

theorem abort_stops_new_fetches:
  assumes "abortRequested (glob p)"
  shows "pool_callback (glob p) c d = (glob p, Some (skip_result c))
       \<and> scrapeWithDelay_enter (glob p) c d = (glob p, Some (skip_result c))
       \<and> abortRequested (glob (run cfg evs p))
       \<and> (i < length (tasks p) \<and> tasks p ! i = Queued \<longrightarrow>
            tasks (run cfg evs p) ! i = Queued
          \<or> tasks (run cfg evs p) ! i = Settled (skip_result (coursesToScrape cfg ! i))
          \<or> tasks (run cfg evs p) ! i = Yielded)
       \<and> sleep_calls (glob (run cfg evs p)) = sleep_calls (glob p)
       \<and> fetch_calls (glob (run cfg evs p)) \<le> fetch_calls (glob p) + sleeping (tasks p)
       \<and> totalRequests (glob (run cfg evs p)) \<le> totalRequests (glob p) + sleeping (tasks p)
       \<and> (fetch_calls (glob (step cfg e q)) \<noteq> fetch_calls (glob q) \<longrightarrow>
            (\<exists>j. e = Wake j \<and> j < length (tasks q) \<and> tasks q ! j = Sleeping))
       \<and> (j < length (tasks q) \<and> tasks (step cfg e q) ! j = Sleeping \<and> tasks q ! j \<noteq> Sleeping
            \<longrightarrow> \<not> abortRequested (glob q) \<and> e = Admit)
       \<and> (\<not> abortRequested g
            \<and> abortRequested (glob (run cfg (turn_events ts) (init_pool g cs)))
            \<longrightarrow> run cfg evs (run cfg (turn_events ts) (init_pool g cs))
                  = run cfg (turn_events ts) (init_pool g cs))"
proof -
  have 1: "pool_callback (glob p) c d = (glob p, Some (skip_result c))"
    using assms by (rule callback_aborted)
  have 2: "scrapeWithDelay_enter (glob p) c d = (glob p, Some (skip_result c))"
    using assms by (simp add: scrapeWithDelay_enter_def)
  have 3: "abortRequested (glob (run cfg evs p))"
    using assms by (rule run_abort_mono)
  have 4: "tasks (run cfg evs p) ! i = Queued
          \<or> tasks (run cfg evs p) ! i = Settled (skip_result (coursesToScrape cfg ! i))
          \<or> tasks (run cfg evs p) ! i = Yielded"
    if "i < length (tasks p)" "tasks p ! i = Queued"
    using run_skipped [OF assms that(1), of cfg evs] that(2) by (simp add: skipped_def)
  have 5: "sleep_calls (glob (run cfg evs p)) = sleep_calls (glob p)"
    and 6: "fetch_calls (glob (run cfg evs p)) \<le> fetch_calls (glob p) + sleeping (tasks p)"
    and 7: "totalRequests (glob (run cfg evs p)) \<le> totalRequests (glob p) + sleeping (tasks p)"
    using run_budget [OF assms, of cfg evs] by simp_all
  have 8: "\<exists>j. e = Wake j \<and> j < length (tasks q) \<and> tasks q ! j = Sleeping"
    if "fetch_calls (glob (step cfg e q)) \<noteq> fetch_calls (glob q)"
    using step_issues_fetch [OF that] by blast
  have 9: "\<not> abortRequested (glob q) \<and> e = Admit"
    if "j < length (tasks q)" "tasks (step cfg e q) ! j = Sleeping" "tasks q ! j \<noteq> Sleeping"
    using step_becomes_sleeping [OF that(2) that(3) that(1)] by simp
  have 10: "run cfg evs (run cfg (turn_events ts) (init_pool g cs))
              = run cfg (turn_events ts) (init_pool g cs)"
    if "\<not> abortRequested g" "abortRequested (glob (run cfg (turn_events ts) (init_pool g cs)))"
    using that by (rule turns_no_call_after_abort)
  show ?thesis
    using 1 2 3 4 5 6 7 8 9 10 by blast
qed

theorem abort_stops_new_fetches_witness:
  "abortRequested (glob blocked_early)
   \<and> tasks blocked_early = [Settled (skip_result cs101), Sleeping, Queued]
   \<and> tasks (run three_courses [Admit, Wake 1, Wake 2, Yield 2] blocked_early)
       = [Settled (skip_result cs101), Fetching, Yielded]
   \<and> sleep_calls (glob (run three_courses [Admit, Wake 1, Wake 2, Yield 2] blocked_early)) = 2
   \<and> fetch_calls (glob (run three_courses [Admit, Wake 1, Wake 2, Yield 2] blocked_early))
       \<le> fetch_calls (glob blocked_early) + sleeping (tasks blocked_early)
   \<and> fetch_calls (glob (step three_courses (Wake 1) blocked_early))
       \<noteq> fetch_calls (glob blocked_early)
   \<and> tasks (step three_courses Admit (init_pool initial_globals [cs101, cs225, cs374])) ! 0
       = Sleeping
   \<and> \<not> abortRequested (glob (init_pool initial_globals [cs101, cs225, cs374] :: (nat, nat) pool))
   \<and> run three_courses [Admit, Wake 1, Wake 2, Yield 2]
         (run three_courses (turn_events blocked_first_turns)
            (init_pool initial_globals [cs101, cs225, cs374]))
       = run three_courses (turn_events blocked_first_turns)
           (init_pool initial_globals [cs101, cs225, cs374])"
proof -
  let ?q = "init_pool initial_globals [cs101, cs225, cs374] :: (nat, nat) pool"
  have k1: "\<not> abortRequested initial_globals" by (simp add: initial_globals_def)
  have k2: "abortRequested (glob (run three_courses (turn_events blocked_first_turns) ?q))"
    by code_simp
  have a: "abortRequested (glob blocked_early)" by code_simp
  have b: "tasks blocked_early = [Settled (skip_result cs101), Sleeping, Queued]" by code_simp
  have c: "tasks (run three_courses [Admit, Wake 1, Wake 2, Yield 2] blocked_early)
       = [Settled (skip_result cs101), Fetching, Yielded]" by code_simp
  have d: "sleep_calls (glob blocked_early) = 2" by code_simp
  have f: "fetch_calls (glob (step three_courses (Wake 1) blocked_early))
       \<noteq> fetch_calls (glob blocked_early)" by code_simp
  have g: "tasks (step three_courses Admit ?q) ! 0 = Sleeping" by code_simp
  have h: "tasks ?q ! 0 \<noteq> Sleeping" "0 < length (tasks ?q)" by code_simp+
  note t1 = abort_stops_new_fetches [OF a, of cs374 "Num 500" three_courses
        "[Admit, Wake 1, Wake 2, Yield 2]" 2 "Wake 1" blocked_early 1
        initial_globals blocked_first_turns "[cs101, cs225, cs374]"]
  note t2 = abort_stops_new_fetches [OF a, of cs374 "Num 500" three_courses
        "[Admit, Wake 1, Wake 2, Yield 2]" 2 Admit ?q 0]
  have e: "sleep_calls (glob (run three_courses [Admit, Wake 1, Wake 2, Yield 2] blocked_early))
             = sleep_calls (glob blocked_early)
     \<and> fetch_calls (glob (run three_courses [Admit, Wake 1, Wake 2, Yield 2] blocked_early))
       \<le> fetch_calls (glob blocked_early) + sleeping (tasks blocked_early)"
    using t1 by blast
  have i: "\<not> abortRequested (glob ?q)"
    using t2 g h by blast
  have e1: "sleep_calls (glob (run three_courses [Admit, Wake 1, Wake 2, Yield 2] blocked_early)) = 2"
    using e d by simp
  have e2: "fetch_calls (glob (run three_courses [Admit, Wake 1, Wake 2, Yield 2] blocked_early))
       \<le> fetch_calls (glob blocked_early) + sleeping (tasks blocked_early)"
    using e by blast
  have k: "run three_courses [Admit, Wake 1, Wake 2, Yield 2]
             (run three_courses (turn_events blocked_first_turns) ?q)
           = run three_courses (turn_events blocked_first_turns) ?q"
    using t1 k1 k2 by blast
  show ?thesis
    by (intro conjI) (fact a, fact b, fact c, fact e1, fact e2, fact f, fact g, fact i, fact k)
qed

text \<open>
  Claim C1, as stated, fails. Three courses, two in flight at a time: the first fetch
  succeeds and is consumed, the third course is admitted and its fetch is issued, then
  the second fetch is answered with 403. The loop consumes that result, sees the flag and
  leaves. The third course was admitted before the flag was set; it is still in flight
  when the loop has left, and it is never consumed. The schedule is a schedule of turns
  (\<open>blocked_schedule_turns\<close>).
\<close>

theorem in_flight_work_dropped:
  "loop (run three_courses blocked_schedule (init_pool initial_globals [cs101, cs225, cs374])) = Broke
   \<and> admitted (run three_courses blocked_schedule (init_pool initial_globals [cs101, cs225, cs374])) = 3
   \<and> tasks (run three_courses blocked_schedule (init_pool initial_globals [cs101, cs225, cs374]))
       = [Yielded, Yielded, Fetching]
   \<and> \<not> drained (run three_courses blocked_schedule (init_pool initial_globals [cs101, cs225, cs374]))"
  by code_simp

text \<open>
  Claim C1, amended. For every schedule of a pool run: the loop has consumed
  \<open>completed\<close> results, \<open>successCount\<close> of them successes with data; the keys of the
  course map are exactly the keys of those successes, each once, so the course count is
  the number of distinct keys among the successes consumed, at most \<open>successCount\<close> and
  equal to it when the course keys of the term are distinct. A loop that has left consumes
  nothing more, a loop that broke did so with the flag set, and with the flag set the
  next result consumed ends the loop.
\<close>

theorem result_loop_stops_at_abort:
  assumes "p = run cfg evs (init_pool g (coursesToScrape cfg))"
  shows "completed (agg p) = length (consumed p)
       \<and> successCount (agg p) = length (filter ok (map snd (consumed p)))
       \<and> failureCount (agg p) = length (filter (\<lambda>r. \<not> ok r) (map snd (consumed p)))
       \<and> set (map fst (coursesMap (agg p)))
           = set (map (\<lambda>r. courseKey (course r)) (filter ok (map snd (consumed p))))
       \<and> distinct (map fst (coursesMap (agg p)))
       \<and> length (coursesMap (agg p)) \<le> successCount (agg p)
       \<and> (distinct (map courseKey (coursesToScrape cfg)) \<longrightarrow>
            length (coursesMap (agg p)) = successCount (agg p))
       \<and> (loop p \<noteq> Running \<longrightarrow> run cfg evs' p = p)
       \<and> (loop p = Broke \<longrightarrow> abortRequested (glob p))
       \<and> (abortRequested (glob p) \<and> loop p = Running \<and> i < length (tasks p)
            \<and> tasks p ! i = Settled r \<longrightarrow> loop (step cfg (Yield i) p) = Broke)"
proof -
  have ai: "agg_inv p"
    unfolding assms by (rule run_agg_inv) (rule init_agg_inv)
  have ti: "task_inv cfg p"
    unfolding assms by (rule run_task_inv) (rule init_task_inv)
  have le: "length (coursesMap (agg p)) \<le> successCount (agg p)"
    using ai by (rule agg_inv_length_le)
  have eq: "length (coursesMap (agg p)) = successCount (agg p)"
    if "distinct (map courseKey (coursesToScrape cfg))"
    using ai task_inv_distinct_keys [OF ti that] by (rule agg_inv_length_eq)
  have fr: "run cfg evs' p = p" if "loop p \<noteq> Running"
    using that by (rule run_not_running)
  have br: "loop p = Broke \<longrightarrow> abortRequested (glob p)"
    unfolding assms by (rule run_broke) (simp add: init_pool_def)
  have yb: "loop (step cfg (Yield i) p) = Broke"
    if "abortRequested (glob p)" "loop p = Running" "i < length (tasks p)" "tasks p ! i = Settled r"
    using that by (simp add: step_Yield)
  show ?thesis
    using ai le eq fr br yb unfolding agg_inv_def by blast
qed

theorem result_loop_stops_at_abort_witness:
  "loop (run three_courses blocked_schedule (init_pool initial_globals [cs101, cs225, cs374])) \<noteq> Running
   \<and> distinct (map courseKey (coursesToScrape three_courses))
   \<and> length (coursesMap (agg (run three_courses blocked_schedule
              (init_pool initial_globals [cs101, cs225, cs374])))) = 1
   \<and> successCount (agg (run three_courses blocked_schedule
              (init_pool initial_globals [cs101, cs225, cs374]))) = 1
   \<and> run three_courses [Respond 2 (Resolved (Some 9)), Yield 2]
        (run three_courses blocked_schedule (init_pool initial_globals [cs101, cs225, cs374]))
       = run three_courses blocked_schedule (init_pool initial_globals [cs101, cs225, cs374])"
proof -
  have a: "coursesToScrape three_courses = [cs101, cs225, cs374]" by code_simp
  have b: "loop (run three_courses blocked_schedule
                  (init_pool initial_globals [cs101, cs225, cs374])) = Broke" by code_simp
  have c: "distinct (map courseKey [cs101, cs225, cs374])" by code_simp
  have d: "successCount (agg (run three_courses blocked_schedule
              (init_pool initial_globals [cs101, cs225, cs374]))) = 1" by code_simp
  show ?thesis
    using result_loop_stops_at_abort [of
        "run three_courses blocked_schedule (init_pool initial_globals [cs101, cs225, cs374])"
        three_courses blocked_schedule initial_globals
        "[Respond 2 (Resolved (Some 9)), Yield 2]" 0 "skip_result cs101"] a b c d
    by simp
qed

subsection \<open>The loop over the terms\<close>


lemma finish_term_inv:
  assumes "main_inv Continue ms"
  shows "main_inv (fst (finish_term tc tn p ms)) (snd (finish_term tc tn p ms))
       \<and> prefix (effects ms) (effects (snd (finish_term tc tn p ms)))
       \<and> pool_starts (snd (finish_term tc tn p ms)) = pool_starts ms"
  using assms
  by (auto simp: finish_term_def Let_def main_inv_def written_def tail_of_def)

lemma body_cases:
  "main_term_body penv conv yt script ms = (Continue, ms)
   \<or> (\<exists>tc cs.
        let g = reset_session (globs ms);
            p = run \<lparr>pool_year = fst yt, pool_term = snd yt, coursesToScrape = cs,
                     delay = REQUEST_DELAY_MS penv, convertCourse = conv\<rparr>
                  (schedule script) (init_pool g cs);
            ms' = ms\<lparr>globs := glob p, pool_starts := pool_starts ms @ [g]\<rparr>
        in main_term_body penv conv yt script ms
             = (if loop p = Running then (Pending, ms')
                else finish_term tc (getTermName (fst yt) (snd yt)) p ms'))"
proof -
  obtain yr trm where yt: "yt = (yr, trm)" by (cases yt)
  show ?thesis
  proof (cases "scrapeSubjects_result script")
    case (Inl e)
    then show ?thesis using yt by (simp add: main_term_body_def)
  next
    case (Inr subjects)
    show ?thesis
    proof (cases "discover (COURSES_PER_SUBJECT penv) (scrapeCourseList_result script) subjects []")
      case (Inl e)
      then show ?thesis using yt Inr by (simp add: main_term_body_def)
    next
      case d: (Inr allCourses)
      show ?thesis
      proof (cases "getTermCode yr trm")
        case (Inl e)
        then show ?thesis using yt Inr d by (simp add: main_term_body_def)
      next
        case c: (Inr termCode)
        show ?thesis
        proof (cases "subjects = [] \<or> allCourses = []")
          case True
          then show ?thesis using yt Inr d c by (auto simp: main_term_body_def)
        next
          case False
          have "let g = reset_session (globs ms);
            p = run \<lparr>pool_year = fst yt, pool_term = snd yt, coursesToScrape = allCourses,
                     delay = REQUEST_DELAY_MS penv, convertCourse = conv\<rparr>
                  (schedule script) (init_pool g allCourses);
            ms' = ms\<lparr>globs := glob p, pool_starts := pool_starts ms @ [g]\<rparr>
            in main_term_body penv conv yt script ms
             = (if loop p = Running then (Pending, ms')
                else finish_term termCode (getTermName (fst yt) (snd yt)) p ms')"
            using False yt Inr d c
            by (simp add: main_term_body_def Let_def reset_session_def)
          then show ?thesis by blast
        qed
      qed
    qed
  qed
qed

lemma body_inv:
  assumes "main_inv Continue ms"
  shows "main_inv (fst (main_term_body penv conv yt script ms))
                  (snd (main_term_body penv conv yt script ms))
       \<and> prefix (effects ms) (effects (snd (main_term_body penv conv yt script ms)))
       \<and> (pool_starts (snd (main_term_body penv conv yt script ms)) = pool_starts ms
          \<or> pool_starts (snd (main_term_body penv conv yt script ms))
              = pool_starts ms @ [reset_session (globs ms)])"
proof -
  from body_cases [of penv conv yt script ms]
  show ?thesis
  proof (elim disjE exE)
    assume "main_term_body penv conv yt script ms = (Continue, ms)"
    then show ?thesis using assms by simp
  next
    fix tc cs
    define g where "g = reset_session (globs ms)"
    define p where "p = run \<lparr>pool_year = fst yt, pool_term = snd yt, coursesToScrape = cs,
                     delay = REQUEST_DELAY_MS penv, convertCourse = conv\<rparr>
                  (schedule script) (init_pool g cs)"
    define ms' where "ms' = ms\<lparr>globs := glob p, pool_starts := pool_starts ms @ [g]\<rparr>"
    assume "let g = reset_session (globs ms);
            p = run \<lparr>pool_year = fst yt, pool_term = snd yt, coursesToScrape = cs,
                     delay = REQUEST_DELAY_MS penv, convertCourse = conv\<rparr>
                  (schedule script) (init_pool g cs);
            ms' = ms\<lparr>globs := glob p, pool_starts := pool_starts ms @ [g]\<rparr>
        in main_term_body penv conv yt script ms
             = (if loop p = Running then (Pending, ms')
                else finish_term tc (getTermName (fst yt) (snd yt)) p ms')"
    then have b: "main_term_body penv conv yt script ms
             = (if loop p = Running then (Pending, ms')
                else finish_term tc (getTermName (fst yt) (snd yt)) p ms')"
      by (simp add: Let_def g_def p_def ms'_def)
    have i': "main_inv Continue ms'"
      using assms by (simp add: main_inv_def ms'_def written_def g_def reset_session_def tail_of_def)
    have e': "effects ms' = effects ms" "pool_starts ms' = pool_starts ms @ [g]"
      by (simp_all add: ms'_def)
    show ?thesis
    proof (cases "loop p = Running")
      case True
      then show ?thesis
        using b i' e' by (simp add: main_inv_def tail_of_def g_def)
    next
      case False
      then show ?thesis
        using b finish_term_inv [OF i', of tc "getTermName (fst yt) (snd yt)" p] e'
        by (simp add: g_def)
    qed
  qed
qed

lemma main_loop_inv:
  "main_inv Continue ms \<Longrightarrow>
   main_inv (fst (main_loop penv conv inputs ms)) (snd (main_loop penv conv inputs ms))
   \<and> prefix (effects ms) (effects (snd (main_loop penv conv inputs ms)))"
proof (induction inputs arbitrary: ms)
  case Nil
  then show ?case by simp
next
  case (Cons a inputs)
  obtain yt script where a: "a = (yt, script)" by (cases a)
  obtain st ms' where b: "main_term_body penv conv yt script ms = (st, ms')"
    by (cases "main_term_body penv conv yt script ms")
  have i: "main_inv st ms'" and pre: "prefix (effects ms) (effects ms')"
    using body_inv [OF Cons.prems, of penv conv yt script] b by simp_all
  show ?case
  proof (cases st)
    case Continue
    then have "main_loop penv conv (a # inputs) ms = main_loop penv conv inputs ms'"
      using a b by simp
    then show ?thesis
      using Cons.IH [of ms'] i pre Continue by (auto intro: prefix_order.trans)
  next
    case (Exited n)
    then have "main_loop penv conv (a # inputs) ms = (Exited n, ms')"
      using a b by simp
    then show ?thesis using i pre Exited by simp
  next
    case Pending
    then have "main_loop penv conv (a # inputs) ms = (Pending, ms')"
      using a b by simp
    then show ?thesis using i pre Pending by simp
  qed
qed


lemma initial_inv: "main_inv Continue initial_main_state"
  by (simp add: main_inv_def initial_main_state_def written_def tail_of_def)

lemma main_effects:
  "(fst (main penv conv inputs) = Continue \<or> fst (main penv conv inputs) = Pending
      \<or> fst (main penv conv inputs) = Exited 1)
   \<and> effects (snd (main penv conv inputs))
       = written (snd (main penv conv inputs))
         @ (case fst (main penv conv inputs) of
              Continue \<Rightarrow> if allTermData (snd (main penv conv inputs)) = [] then []
                          else [WriteIndex (index_entries (snd (main penv conv inputs)))]
            | Exited n \<Rightarrow> [Exit n]
            | Pending \<Rightarrow> [])
   \<and> list_all (\<lambda>g. \<not> abortRequested g \<and> forbidden403Count g = 0)
        (pool_starts (snd (main penv conv inputs)))"
proof (cases "inputs = []")
  case True
  then show ?thesis
    by (simp add: main_def initial_main_state_def written_def)
next
  case False
  obtain st ms where l: "main_loop penv conv inputs initial_main_state = (st, ms)"
    by (cases "main_loop penv conv inputs initial_main_state")
  have i: "main_inv st ms"
    using main_loop_inv [OF initial_inv, of penv conv inputs] l by simp
  show ?thesis
  proof (cases st)
    case Continue
    then show ?thesis
      using False l i
      by (simp add: main_def main_inv_def written_def index_entries_def tail_of_def)
  next
    case (Exited n)
    then show ?thesis
      using False l i by (simp add: main_def main_inv_def tail_of_def)
  next
    case Pending
    then show ?thesis
      using False l i by (simp add: main_def main_inv_def tail_of_def)
  qed
qed




text \<open>The example runs, one term at a time.\<close>

lemma body_fall:
  "main_term_body Map.empty (\<lambda>d. d) (''2025'', ''fall'') limited_script initial_main_state
     = (Continue, after_fall)"
  by code_simp

lemma body_summer:
  "fst (main_term_body Map.empty (\<lambda>d. d) (''2025'', ''summer'') limited_script after_fall) = Continue
   \<and> map rateLimitCount (pool_starts (snd
        (main_term_body Map.empty (\<lambda>d. d) (''2025'', ''summer'') limited_script after_fall))) = [0, 1]
   \<and> map totalRequests (pool_starts (snd
        (main_term_body Map.empty (\<lambda>d. d) (''2025'', ''summer'') limited_script after_fall))) = [0, 1]"
  by code_simp






text \<open>
  Claim C4, as stated, fails. Two terms, one course each, the fetch of the first term
  answered with 429: the pool run of the second term starts with \<open>rateLimitCount = 1\<close>
  and \<open>totalRequests = 1\<close>.
\<close>

theorem counters_leak_across_terms:
  "fst limited_run = Continue
   \<and> map rateLimitCount (pool_starts (snd limited_run)) = [0, 1]
   \<and> map totalRequests (pool_starts (snd limited_run)) = [0, 1]
   \<and> \<not> list_all session_fresh (pool_starts (snd limited_run))"
proof -
  obtain ms where b: "main_term_body Map.empty (\<lambda>d. d) (''2025'', ''summer'') limited_script after_fall
      = (Continue, ms)"
    using body_summer
    by (cases "main_term_body Map.empty (\<lambda>d. d) (''2025'', ''summer'') limited_script after_fall") auto
  have r: "map rateLimitCount (pool_starts ms) = [0, 1]"
    and t: "map totalRequests (pool_starts ms) = [0, 1]"
    using body_summer b by simp_all
  have m: "fst limited_run = Continue \<and> pool_starts (snd limited_run) = pool_starts ms"
    by (simp add: limited_run_def main_def body_fall b)
  have "\<not> list_all session_fresh (pool_starts ms)"
  proof
    assume "list_all session_fresh (pool_starts ms)"
    then have "list_all (\<lambda>n. n = 0) (map rateLimitCount (pool_starts ms))"
      by (simp add: list_all_iff session_fresh_def)
    then show False using r by simp
  qed
  then show ?thesis using m r t by simp
qed

text \<open>
  Claim C4, amended. At the start of every term's pool run the abort flag is false and
  the 403 counter is 0, whatever the terms before have seen. The state a pool run starts
  from is the state the term before left with these two fields reset and nothing else:
  \<open>totalRequests\<close> and \<open>rateLimitCount\<close> carry over.
\<close>

theorem session_reset_per_term:
  "list_all (\<lambda>g. \<not> abortRequested g \<and> forbidden403Count g = 0)
     (pool_starts (snd (main penv conv inputs)))
   \<and> (pool_starts (snd (main_term_body penv conv yt script ms)) = pool_starts ms
      \<or> pool_starts (snd (main_term_body penv conv yt script ms))
          = pool_starts ms @ [(globs ms)\<lparr>abortRequested := False, forbidden403Count := 0\<rparr>])"
proof -
  have a: "list_all (\<lambda>g. \<not> abortRequested g \<and> forbidden403Count g = 0)
     (pool_starts (snd (main penv conv inputs)))"
    using main_effects [of penv conv inputs] by simp
  have b: "pool_starts (snd (main_term_body penv conv yt script ms)) = pool_starts ms
      \<or> pool_starts (snd (main_term_body penv conv yt script ms))
          = pool_starts ms @ [(globs ms)\<lparr>abortRequested := False, forbidden403Count := 0\<rparr>]"
  proof -
    from body_cases [of penv conv yt script ms]
    show ?thesis
    proof (elim disjE exE)
      assume "main_term_body penv conv yt script ms = (Continue, ms)"
      then show ?thesis by simp
    next
      fix tc cs
      assume "let g = reset_session (globs ms);
            p = run \<lparr>pool_year = fst yt, pool_term = snd yt, coursesToScrape = cs,
                     delay = REQUEST_DELAY_MS penv, convertCourse = conv\<rparr>
                  (schedule script) (init_pool g cs);
            ms' = ms\<lparr>globs := glob p, pool_starts := pool_starts ms @ [g]\<rparr>
        in main_term_body penv conv yt script ms
             = (if loop p = Running then (Pending, ms')
                else finish_term tc (getTermName (fst yt) (snd yt)) p ms')"
      then show ?thesis
        by (auto simp: Let_def finish_term_def reset_session_def split: if_splits)
    qed
  qed
  show ?thesis using a b by blast
qed

end
